theory Spec2Isabelle
  imports Complex_Main
begin

section \<open>Python values and errors\<close>

text \<open>
  The repository is Python. Its \<open>float\<close> values are modelled as the reals, with exact
  arithmetic: the rounding error of the IEEE operations is not part of the model, so
  every statement below is one about the arithmetic the code writes down. There is one
  exception, the monthly payment: \<open>round(mensualite, 2)\<close> turns a difference in the last
  bit of a double into a cent, so the arithmetic that leads to the payment is modelled in
  doubles (\<open>fl\<close> below). Python's unbounded \<open>int\<close> is \<open>int\<close>. An exception is a value
  \<open>Inl e\<close> of a sum type.

  The messages of the \<open>ValueError\<close>s the code raises are one constructor each:
  \<^item> \<open>Duree_doit_etre_positive\<close>: "La duree doit etre positive."
    (\<open>ProjetActuariat/loan_core.py\<close>);
  \<^item> \<open>Capital_doit_etre_gt_0\<close>, \<open>Duree_doit_etre_gt_0\<close>, \<open>Taux_annuel_doit_etre_ge_0\<close>:
    "Le capital doit etre > 0.", "La duree doit etre > 0.",
    "Le taux annuel doit etre >= 0." (\<open>loan_core.py\<close>);
  \<^item> \<open>Dimensions_incoherentes\<close>: "Dimensions incoherentes: CRD mensuel vs probas
    deces mensuelles." (\<open>single_premium_monthly\<close>);
  \<^item> \<open>Math_domain_error\<close>: what \<open>math.log\<close> raises on an argument that is not positive.
\<close>

datatype message =
    Duree_doit_etre_positive
  | Capital_doit_etre_gt_0
  | Duree_doit_etre_gt_0
  | Taux_annuel_doit_etre_ge_0
  | Dimensions_incoherentes
  | Math_domain_error

text \<open>
  \<open>ZeroDivisionError\<close> is raised by \<open>/\<close> on a zero divisor and by \<open>**\<close> on a zero base
  with a negative exponent. \<open>OverflowError\<close> is raised by \<open>**\<close> when the result is too
  large for a double: it rounds to infinity from \<open>2^1024 - 2^970\<close> on.
\<close>

datatype error = ValueError message | ZeroDivisionError | OverflowError

definition dbl_overflow :: real where
  "dbl_overflow = 2 ^ 1024 - 2 ^ 970"

text \<open>
  The double nearest to a real: 53 significant bits, a tie going to the even neighbour.
  The range of the exponent is not modelled (no subnormal numbers, no infinity).
\<close>

definition round_half_even :: "real \<Rightarrow> int" where
  "round_half_even x =
     (let f = \<lfloor>x\<rfloor>; d = x - of_int f
      in if d < 1 / 2 then f
         else if 1 / 2 < d then f + 1
         else if even f then f else f + 1)"

definition fl :: "real \<Rightarrow> real" where
  "fl x =
     (if x = 0 then 0
      else let u = 2 powi (\<lfloor>log 2 \<bar>x\<bar>\<rfloor> - 52)
           in of_int (round_half_even (x / u)) * u)"

definition py_div :: "real \<Rightarrow> real \<Rightarrow> error + real" where
  "py_div x y = (if y = 0 then Inl ZeroDivisionError else Inr (x / y))"

text \<open>
  \<open>x ** y\<close> on two floats. On a negative base with an exponent that is not a whole
  number Python returns a complex number, the principal value
  \<open>|x| ** y * (cos (pi * y) + i * sin (pi * y))\<close>, and goes on with it; a float is the
  complex number with the imaginary part 0.
\<close>

definition py_pow :: "real \<Rightarrow> real \<Rightarrow> error + complex" where
  "py_pow x y =
     (if y = 0 then Inr 1
      else if x = 0 then (if y < 0 then Inl ZeroDivisionError else Inr 0)
      else if 0 < x then
        (if dbl_overflow \<le> x powr y then Inl OverflowError else Inr (of_real (x powr y)))
      else if of_int \<lfloor>y\<rfloor> = y then
        (if dbl_overflow \<le> \<bar>x powi \<lfloor>y\<rfloor>\<bar> then Inl OverflowError
         else Inr (of_real (x powi \<lfloor>y\<rfloor>)))
      else
        (if dbl_overflow \<le> \<bar>x\<bar> powr y then Inl OverflowError
         else Inr (of_real (\<bar>x\<bar> powr y) * cis (pi * y))))"

text \<open>\<open>x ** n\<close> on a float and an \<open>int\<close>: the result is a float.\<close>

definition py_pow_int :: "real \<Rightarrow> int \<Rightarrow> error + real" where
  "py_pow_int x n =
     (if n = 0 then Inr 1
      else if x = 0 then (if n < 0 then Inl ZeroDivisionError else Inr 0)
      else if dbl_overflow \<le> \<bar>x powi n\<bar> then Inl OverflowError
      else Inr (x powi n))"

definition py_log :: "real \<Rightarrow> error + real" where
  "py_log x = (if x \<le> 0 then Inl (ValueError Math_domain_error) else Inr (ln x))"

text \<open>
  \<open>round(x, 2)\<close> and pandas' \<open>DataFrame.round(2)\<close> round to the nearest multiple of
  \<open>0.01\<close>, a tie going to the even neighbour.
\<close>

definition py_round2 :: "real \<Rightarrow> real" where
  "py_round2 x = of_int (round_half_even (x * 100)) / 100"

section \<open>The amortization schedule (ProjetActuariat/loan\_core.py)\<close>

record row =
  Mois :: int
  Valeur_mensualite :: real
  Interets :: real
  Capital_rembourse :: real
  CRD :: real

text \<open>
  The payment before it is rounded (lines 18 to 21), in doubles: every operation is
  followed by \<open>fl\<close>, and the library's \<open>pow\<close> is taken as correctly rounded.
  \<open>formule_annuite\<close> is the branch \<open>capital * (i_m / (1.0 - (1.0 + i_m) ** (-n_mois)))\<close>,
  which \<open>loan_core.py\<close> has too.
\<close>

definition formule_annuite :: "real \<Rightarrow> int \<Rightarrow> real \<Rightarrow> error + real" where
  "formule_annuite capital n_mois i_m =
     (case py_pow_int (fl (1 + i_m)) (- n_mois) of
        Inl e \<Rightarrow> Inl e
      | Inr p \<Rightarrow>
          (case py_div i_m (fl (1 - fl p)) of
             Inl e \<Rightarrow> Inl e
           | Inr r \<Rightarrow> Inr (fl (capital * fl r))))"

definition mensualite_brute :: "real \<Rightarrow> int \<Rightarrow> real \<Rightarrow> error + real" where
  "mensualite_brute capital n_mois i_m =
     (if \<bar>i_m\<bar> < fl (1 / 10 ^ 12)
      then (case py_div capital (of_int n_mois) of
              Inl e \<Rightarrow> Inl e
            | Inr r \<Rightarrow> Inr (fl r))
      else formule_annuite capital n_mois i_m)"

text \<open>
  One turn of the loop \<open>for m in range(1, n_mois + 1)\<close> (lines 28 to 49): the state is
  the list \<open>rows\<close> and the balance \<open>crd\<close>.
\<close>

definition amort_step :: "real \<Rightarrow> real \<Rightarrow> int \<Rightarrow> int \<Rightarrow> row list \<times> real \<Rightarrow> row list \<times> real" where
  "amort_step mensualite i_m n_mois m st =
     (let rows = fst st; crd = snd st;
          interets = crd * i_m;
          capital_remb = mensualite - interets;
          crd_next = crd - capital_remb
      in if m = n_mois
         then (rows @ [\<lparr>Mois = m, Valeur_mensualite = interets + crd, Interets = interets,
                         Capital_rembourse = crd, CRD = 0\<rparr>], 0)
         else (rows @ [\<lparr>Mois = m, Valeur_mensualite = mensualite, Interets = interets,
                         Capital_rembourse = capital_remb, CRD = crd_next\<rparr>], crd_next))"

definition amort_rows :: "real \<Rightarrow> real \<Rightarrow> int \<Rightarrow> real \<Rightarrow> row list" where
  "amort_rows mensualite i_m n_mois capital =
     fst (fold (amort_step mensualite i_m n_mois) [1..n_mois] ([], capital))"

text \<open>\<open>df[cols] = df[cols].round(2)\<close>: the four money columns, not \<open>Mois\<close>.\<close>

definition round_row :: "row \<Rightarrow> row" where
  "round_row r =
     \<lparr>Mois = Mois r, Valeur_mensualite = py_round2 (Valeur_mensualite r),
      Interets = py_round2 (Interets r), Capital_rembourse = py_round2 (Capital_rembourse r),
      CRD = py_round2 (CRD r)\<rparr>"

text \<open>
  \<open>tableau_amortissement\<close> returns the rounded payment, the rounded table, the total of
  the interest column and the cost of the credit. The payment is computed from the double
  \<open>i_m\<close>; the loop is in exact arithmetic.
\<close>

definition tableau_amortissement :: "real \<Rightarrow> int \<Rightarrow> real \<Rightarrow> error + (real \<times> row list \<times> real \<times> real)" where
  "tableau_amortissement capital duree_annees taux_annuel =
     (let n_mois = duree_annees * 12
      in if n_mois \<le> 0 then Inl (ValueError Duree_doit_etre_positive)
         else
           let i_m = taux_annuel / 12
           in case mensualite_brute capital n_mois (fl i_m) of
                Inl e \<Rightarrow> Inl e
              | Inr m0 \<Rightarrow>
                  let mensualite = py_round2 m0;
                      df = map round_row (amort_rows mensualite i_m n_mois capital);
                      total_interets = py_round2 (sum_list (map Interets df));
                      cout_total = py_round2 (sum_list (map Valeur_mensualite df) - capital)
                  in Inr (mensualite, df, total_interets, cout_total))"

section \<open>The month-0 variant (loan\_core.py)\<close>

text \<open>
  The second implementation of \<open>tableau_amortissement\<close>, at the root of the
  repository: it validates the three inputs, writes a row for month 0 and has no
  adjustment of the last row. Its table has six columns.
\<close>

record row0 =
  Mensualite :: int
  Interets0 :: real
  Capital_rembourse0 :: real
  Valeur_mensualite0 :: real
  Capital_restant_du :: real
  Part_interets :: real

text \<open>
  One turn of \<open>for m in range(nbr_mensualites + 1)\<close> with \<open>m > 0\<close> (lines 48 to 62):
  the rows so far stand for the five lists, \<open>capital_restant_du[m - 1]\<close> is the balance
  of the last row.
\<close>

definition racine_step :: "real \<Rightarrow> real \<Rightarrow> int \<Rightarrow> row0 list \<Rightarrow> error + row0 list" where
  "racine_step valeur_mensualite taux_mensuel m rows =
     (let i = Capital_restant_du (last rows) * taux_mensuel;
          c = valeur_mensualite - i;
          crd = Capital_restant_du (last rows) - c
      in if valeur_mensualite = 0
         then Inr (rows @ [\<lparr>Mensualite = m, Interets0 = i, Capital_rembourse0 = c,
                 Valeur_mensualite0 = valeur_mensualite, Capital_restant_du = crd,
                 Part_interets = 0\<rparr>])
         else case py_div i valeur_mensualite of
                Inl e \<Rightarrow> Inl e
              | Inr r \<Rightarrow>
                  Inr (rows @ [\<lparr>Mensualite = m, Interets0 = i, Capital_rembourse0 = c,
                    Valeur_mensualite0 = valeur_mensualite, Capital_restant_du = crd,
                    Part_interets = py_round2 (r * 100)\<rparr>]))"

fun racine_loop :: "real \<Rightarrow> real \<Rightarrow> int list \<Rightarrow> row0 list \<Rightarrow> error + row0 list" where
  "racine_loop v t [] rows = Inr rows"
| "racine_loop v t (m # ms) rows =
     (case racine_step v t m rows of
        Inl e \<Rightarrow> Inl e
      | Inr rows' \<Rightarrow> racine_loop v t ms rows')"

definition round_row0 :: "row0 \<Rightarrow> row0" where
  "round_row0 r =
     r\<lparr>Interets0 := py_round2 (Interets0 r),
       Capital_rembourse0 := py_round2 (Capital_rembourse0 r),
       Valeur_mensualite0 := py_round2 (Valeur_mensualite0 r),
       Capital_restant_du := py_round2 (Capital_restant_du r)\<rparr>"

definition tableau_amortissement_racine ::
    "real \<Rightarrow> int \<Rightarrow> real \<Rightarrow> error + (real \<times> row0 list \<times> real \<times> real)" where
  "tableau_amortissement_racine capital duree_annees taux_annuel =
     (if capital \<le> 0 then Inl (ValueError Capital_doit_etre_gt_0)
      else if duree_annees \<le> 0 then Inl (ValueError Duree_doit_etre_gt_0)
      else if taux_annuel < 0 then Inl (ValueError Taux_annuel_doit_etre_ge_0)
      else
        let nbr_mensualites = 12 * duree_annees;
            taux_mensuel = taux_annuel / 12
        in case (if fl taux_mensuel = 0
                 then (case py_div capital (of_int nbr_mensualites) of
                         Inl e \<Rightarrow> Inl e
                       | Inr r \<Rightarrow> Inr (fl r))
                 else formule_annuite capital nbr_mensualites (fl taux_mensuel)) of
             Inl e \<Rightarrow> Inl e
           | Inr v0 \<Rightarrow>
               let valeur_mensualite = py_round2 v0
               in case racine_loop valeur_mensualite taux_mensuel [1..nbr_mensualites]
                         [\<lparr>Mensualite = 0, Interets0 = 0, Capital_rembourse0 = 0,
                           Valeur_mensualite0 = 0, Capital_restant_du = capital,
                           Part_interets = 0\<rparr>] of
                    Inl e \<Rightarrow> Inl e
                  | Inr rows \<Rightarrow>
                      let df = map round_row0 rows;
                          pos = filter (\<lambda>r. 0 < Mensualite r) df;
                          total_interets = sum_list (map Interets0 pos);
                          total_rembourse = sum_list (map Valeur_mensualite0 pos);
                          cout_total_credit = total_rembourse - capital
                      in Inr (valeur_mensualite, df, py_round2 total_interets,
                              py_round2 cout_total_credit))"

section \<open>Monthly mortality (ProjetActuariat/app.py)\<close>

text \<open>
  \<open>monthly_death_probs_from_annual_q\<close>: the outer loop runs over the years with the
  state \<open>surv_to_year_start\<close> and the list \<open>probs\<close>; the inner loop appends the twelve
  months of the year.
\<close>

fun death_loop :: "real list \<Rightarrow> real \<Rightarrow> real list \<Rightarrow> error + real list" where
  "death_loop [] surv_to_year_start probs = Inr probs"
| "death_loop (q # qs) surv_to_year_start probs =
     (case py_log (max (1 / 10 ^ 15) (1 - q)) of
        Inl e \<Rightarrow> Inl e
      | Inr l \<Rightarrow>
          let mu = - l;
              probs' = fold (\<lambda>m acc. acc @ [surv_to_year_start *
                         (exp (- mu * (real m - 1) / 12) - exp (- mu * real m / 12))])
                         [1..<13] probs
          in death_loop qs (surv_to_year_start * (1 - q)) probs')"

definition monthly_death_probs_from_annual_q :: "real list \<Rightarrow> error + real list" where
  "monthly_death_probs_from_annual_q q_by_year = death_loop q_by_year 1 []"

fun survival_loop :: "real list \<Rightarrow> real \<Rightarrow> real list \<Rightarrow> error + real list" where
  "survival_loop [] surv_to_year_start surv_list = Inr surv_list"
| "survival_loop (q # qs) surv_to_year_start surv_list =
     (case py_log (max (1 / 10 ^ 15) (1 - q)) of
        Inl e \<Rightarrow> Inl e
      | Inr l \<Rightarrow>
          let mu = - l;
              surv_list' = fold (\<lambda>j acc. acc @ [surv_to_year_start *
                             exp (- mu * ((real j - 1) / 12))])
                             [1..<13] surv_list
          in survival_loop qs (surv_to_year_start * (1 - q)) surv_list')"

definition monthly_survival_to_month_start_from_annual_q :: "real list \<Rightarrow> error + real list" where
  "monthly_survival_to_month_start_from_annual_q q_by_year = survival_loop q_by_year 1 []"

section \<open>Actuarial present values (ProjetActuariat/app.py)\<close>

text \<open>
  \<open>single_premium_monthly\<close>: the loop over \<open>enumerate(zip(crd, probs), start=1)\<close>, with
  the counter \<open>m\<close> and the sum \<open>U\<close> as state.
\<close>

fun premium_loop :: "real \<Rightarrow> nat \<Rightarrow> (real \<times> real) list \<Rightarrow> complex \<Rightarrow> error + complex" where
  "premium_loop i_annual m [] U = Inr U"
| "premium_loop i_annual m (z # zs) U =
     (case py_pow (1 + i_annual) (- real m / 12) of
        Inl e \<Rightarrow> Inl e
      | Inr disc \<Rightarrow>
          premium_loop i_annual (Suc m) zs (U + disc * of_real (snd z) * of_real (fst z)))"

definition single_premium_monthly :: "real list \<Rightarrow> real list \<Rightarrow> real \<Rightarrow> error + complex" where
  "single_premium_monthly crd_end_of_month death_probs_monthly i_annual =
     (if length crd_end_of_month \<noteq> length death_probs_monthly
      then Inl (ValueError Dimensions_incoherentes)
      else premium_loop i_annual 1 (zip crd_end_of_month death_probs_monthly) 0)"

text \<open>\<open>pv_monthly_premiums_due\<close>: the loop over \<open>enumerate(survival_to_month_start)\<close>.\<close>

fun pv_loop :: "real \<Rightarrow> nat \<Rightarrow> real list \<Rightarrow> complex \<Rightarrow> error + complex" where
  "pv_loop i_annual idx [] pv = Inr pv"
| "pv_loop i_annual idx (s_start # rest) pv =
     (case py_pow (1 + i_annual) (- real idx / 12) of
        Inl e \<Rightarrow> Inl e
      | Inr d \<Rightarrow> pv_loop i_annual (Suc idx) rest (pv + d * of_real s_start))"

definition pv_monthly_premiums_due :: "real list \<Rightarrow> real \<Rightarrow> error + complex" where
  "pv_monthly_premiums_due survival_to_month_start i_annual =
     pv_loop i_annual 0 survival_to_month_start 0"

section \<open>Closed forms used in the proofs\<close>

text \<open>
  The balance after \<open>k\<close> ordinary turns of the amortization loop, the row such a turn
  writes, and the row of the last turn.
\<close>

fun solde :: "real \<Rightarrow> real \<Rightarrow> real \<Rightarrow> nat \<Rightarrow> real" where
  "solde mens i c 0 = c"
| "solde mens i c (Suc k) = solde mens i c k - (mens - solde mens i c k * i)"

definition ligne :: "real \<Rightarrow> real \<Rightarrow> real \<Rightarrow> int \<Rightarrow> nat \<Rightarrow> row" where
  "ligne mens i c m k =
     \<lparr>Mois = m, Valeur_mensualite = mens, Interets = solde mens i c k * i,
      Capital_rembourse = mens - solde mens i c k * i, CRD = solde mens i c (Suc k)\<rparr>"

definition derniere_ligne :: "real \<Rightarrow> int \<Rightarrow> real \<Rightarrow> row" where
  "derniere_ligne i m s =
     \<lparr>Mois = m, Valeur_mensualite = s * i + s, Interets = s * i,
      Capital_rembourse = s, CRD = 0\<rparr>"

text \<open>
  The payment before it is rounded, where the computation raises no error; and the value
  of \<open>x ** y\<close> for a base that is not 0, where it fits a double.
\<close>

definition paiement_double :: "real \<Rightarrow> int \<Rightarrow> real \<Rightarrow> real" where
  "paiement_double capital n i =
     (if \<bar>i\<bar> < fl (1 / 10 ^ 12) then fl (capital / of_int n)
      else fl (capital * fl (i / fl (1 - fl (fl (1 + i) powi (- n))))))"

definition puissance :: "real \<Rightarrow> real \<Rightarrow> complex" where
  "puissance x y =
     (if 0 < x then of_real (x powr y) else of_real (\<bar>x\<bar> powr y) * cis (pi * y))"

text \<open>
  The force of mortality of a year, the twelve values a year appends to each of the two
  monthly lists, and the lists as the loops build them from a starting survival.
\<close>

definition mu_of :: "real \<Rightarrow> real" where
  "mu_of q = - ln (max (1 / 10 ^ 15) (1 - q))"

definition death_year :: "real \<Rightarrow> real \<Rightarrow> real list" where
  "death_year S q =
     map (\<lambda>m. S * (exp (- mu_of q * (real m - 1) / 12) - exp (- mu_of q * real m / 12)))
       [1..<13]"

fun death_list :: "real list \<Rightarrow> real \<Rightarrow> real list" where
  "death_list [] S = []"
| "death_list (q # qs) S = death_year S q @ death_list qs (S * (1 - q))"

definition survival_year :: "real \<Rightarrow> real \<Rightarrow> real list" where
  "survival_year S q = map (\<lambda>j. S * exp (- mu_of q * ((real j - 1) / 12))) [1..<13]"

fun survival_list :: "real list \<Rightarrow> real \<Rightarrow> real list" where
  "survival_list [] S = []"
| "survival_list (q # qs) S = survival_year S q @ survival_list qs (S * (1 - q))"

section \<open>Rounding\<close>

lemma py_round2_zero: "py_round2 0 = 0"
  by (simp add: py_round2_def round_half_even_def)

lemma round_half_even_bounds: "\<bar>of_int (round_half_even x) - x\<bar> \<le> 1 / 2"
  unfolding round_half_even_def Let_def by (auto simp: abs_le_iff)


lemma round_half_even_mono:
  assumes "x \<le> y" shows "round_half_even x \<le> round_half_even y"
proof (cases "\<lfloor>x\<rfloor> = \<lfloor>y\<rfloor>")
  case True
  then show ?thesis using assms by (auto simp: round_half_even_def Let_def)
next
  case False
  then have lt: "\<lfloor>x\<rfloor> < \<lfloor>y\<rfloor>" using assms floor_mono[OF assms] by linarith
  have a: "round_half_even x \<le> \<lfloor>x\<rfloor> + 1" by (auto simp: round_half_even_def Let_def)
  have b: "\<lfloor>y\<rfloor> \<le> round_half_even y" by (auto simp: round_half_even_def Let_def)
  show ?thesis using a b lt by linarith
qed

lemma py_round2_bounds: "\<bar>py_round2 x - x\<bar> \<le> 1 / 200"
proof -
  have "\<bar>of_int (round_half_even (x * 100)) - x * 100\<bar> \<le> 1 / 2"
    by (rule round_half_even_bounds)
  then show ?thesis by (simp add: py_round2_def abs_le_iff field_simps)
qed

lemma py_round2_mono: "x \<le> y \<Longrightarrow> py_round2 x \<le> py_round2 y"
  by (simp add: py_round2_def round_half_even_mono divide_right_mono)


lemma py_round2_nonneg: "0 \<le> x \<Longrightarrow> 0 \<le> py_round2 x"
  using py_round2_mono[of 0 x] by (simp add: py_round2_zero)

lemma sum_list_py_round2:
  "\<bar>sum_list (map py_round2 xs) - sum_list xs\<bar> \<le> real (length xs) / 200"
proof (induction xs)
  case Nil
  then show ?case by simp
next
  case (Cons x xs)
  have "\<bar>py_round2 x - x\<bar> \<le> 1 / 200" by (rule py_round2_bounds)
  with Cons have "\<bar>(py_round2 x - x) + (sum_list (map py_round2 xs) - sum_list xs)\<bar>
      \<le> 1 / 200 + real (length xs) / 200"
    by linarith
  then show ?case by (simp add: add_divide_distrib algebra_simps)
qed

section \<open>The amortization loop in closed form\<close>

lemma amort_step_plain:
  "m \<noteq> n \<Longrightarrow> amort_step mens i n m (rows, crd) =
     (rows @ [\<lparr>Mois = m, Valeur_mensualite = mens, Interets = crd * i,
                Capital_rembourse = mens - crd * i, CRD = crd - (mens - crd * i)\<rparr>],
      crd - (mens - crd * i))"
  by (simp add: amort_step_def Let_def)

lemma amort_step_last:
  "amort_step mens i n n (rows, crd) = (rows @ [derniere_ligne i n crd], 0)"
  by (simp add: amort_step_def Let_def derniere_ligne_def)

lemma fold_amort_step:
  "n \<notin> set ms \<Longrightarrow>
   fold (amort_step mens i n) ms ([], c) =
     (map (\<lambda>k. ligne mens i c (ms ! k) k) [0..<length ms], solde mens i c (length ms))"
proof (induction ms rule: rev_induct)
  case Nil
  then show ?case by simp
next
  case (snoc m ms)
  then have IH: "fold (amort_step mens i n) ms ([], c) =
     (map (\<lambda>k. ligne mens i c (ms ! k) k) [0..<length ms], solde mens i c (length ms))"
    and ne: "m \<noteq> n" by auto
  have eq: "map (\<lambda>k. ligne mens i c ((ms @ [m]) ! k) k) [0..<length ms]
          = map (\<lambda>k. ligne mens i c (ms ! k) k) [0..<length ms]"
    by (rule map_cong) (auto simp: nth_append)
  show ?case
    using ne by (simp add: IH eq amort_step_plain ligne_def nth_append)
qed

lemma amort_rows_eq:
  assumes "1 \<le> n"
  shows "amort_rows mens i n c =
     map (\<lambda>k. ligne mens i c (int k + 1) k) [0..<nat (n - 1)]
       @ [derniere_ligne i n (solde mens i c (nat (n - 1)))]"
proof -
  have sp: "[1..n] = [1..n - 1] @ [n]" using assms by (rule upto_rec2)
  have notin: "n \<notin> set [1..n - 1]" by simp
  have len: "length [1..n - 1] = nat (n - 1)" by simp
  have eq: "map (\<lambda>k. ligne mens i c ([1..n - 1] ! k) k) [0..<nat (n - 1)]
          = map (\<lambda>k. ligne mens i c (int k + 1) k) [0..<nat (n - 1)]"
    by (rule map_cong) (auto simp: add.commute)
  show ?thesis
    unfolding amort_rows_def sp fold_append comp_def fold_amort_step[OF notin] len eq
    by (simp add: amort_step_last)
qed

lemma length_amort_rows: "1 \<le> n \<Longrightarrow> length (amort_rows mens i n c) = nat n"
  by (simp add: amort_rows_eq)

lemma last_amort_rows:
  "1 \<le> n \<Longrightarrow> last (amort_rows mens i n c) = derniere_ligne i n (solde mens i c (nat (n - 1)))"
  by (simp add: amort_rows_eq)

lemma nth_amort_rows:
  "1 \<le> n \<Longrightarrow> k < nat (n - 1) \<Longrightarrow> amort_rows mens i n c ! k = ligne mens i c (int k + 1) k"
  by (simp add: amort_rows_eq nth_append)

lemma nth_amort_rows_last:
  "1 \<le> n \<Longrightarrow> amort_rows mens i n c ! nat (n - 1) = derniere_ligne i n (solde mens i c (nat (n - 1)))"
  by (simp add: amort_rows_eq nth_append)

lemma solde_telescope:
  "sum_list (map (\<lambda>k. mens - solde mens i c k * i) [0..<K]) = c - solde mens i c K"
  by (induction K) simp_all

lemma sum_capital_rembourse:
  "1 \<le> n \<Longrightarrow> sum_list (map Capital_rembourse (amort_rows mens i n c)) = c"
  by (simp add: amort_rows_eq comp_def ligne_def derniere_ligne_def solde_telescope)


lemma solde_zero_rate: "solde mens 0 c k = c - real k * mens"
  by (induction k) (simp_all add: algebra_simps)

lemma solde_step_le:
  assumes "0 \<le> i" "c * i \<le> mens"
  shows "solde mens i c (Suc k) \<le> solde mens i c k \<and> solde mens i c k \<le> c"
proof (induction k)
  case 0
  then show ?case using assms by simp
next
  case (Suc k)
  then have le: "solde mens i c (Suc k) \<le> c" by linarith
  have "solde mens i c (Suc k) * i \<le> c * i" using le assms(1) by (rule mult_right_mono)
  then have "solde mens i c (Suc k) * i \<le> mens" using assms(2) by linarith
  then show ?case using le by simp
qed

lemma solde_antimono:
  assumes "0 \<le> i" "c * i \<le> mens" "j \<le> k"
  shows "solde mens i c k \<le> solde mens i c j"
  using assms(3)
proof (induction k)
  case 0
  then show ?case by simp
next
  case (Suc k)
  show ?case
  proof (cases "j = Suc k")
    case True
    then show ?thesis by simp
  next
    case False
    then have "j \<le> k" using Suc.prems by simp
    then have "solde mens i c k \<le> solde mens i c j" by (rule Suc.IH)
    moreover have "solde mens i c (Suc k) \<le> solde mens i c k"
      using solde_step_le[OF assms(1,2)] by blast
    ultimately show ?thesis by linarith
  qed
qed

section \<open>Doubles\<close>

lemma two_powi_floor_log_le:
  assumes "x \<noteq> 0"
  shows "2 powi \<lfloor>log 2 \<bar>x\<bar>\<rfloor> \<le> \<bar>x\<bar>"
proof -
  have pos: "0 < \<bar>x\<bar>" using assms by simp
  have "of_int \<lfloor>log 2 \<bar>x\<bar>\<rfloor> \<le> log 2 \<bar>x\<bar>" by simp
  then have "2 powr (of_int \<lfloor>log 2 \<bar>x\<bar>\<rfloor>) \<le> 2 powr (log 2 \<bar>x\<bar>)"
    by (simp only: powr_le_cancel_iff)
  then show ?thesis using pos by (simp add: powr_real_of_int')
qed

lemma fl_error: "\<bar>fl x - x\<bar> \<le> \<bar>x\<bar> / 2 ^ 53"
proof (cases "x = 0")
  case True
  then show ?thesis by (simp add: fl_def)
next
  case False
  define e where "e = \<lfloor>log 2 \<bar>x\<bar>\<rfloor>"
  define u :: real where "u = 2 powi (e - 52)"
  have upos: "0 < u" by (simp add: u_def)
  have flx: "fl x = of_int (round_half_even (x / u)) * u"
    using False by (simp add: fl_def Let_def u_def e_def)
  have "\<bar>of_int (round_half_even (x / u)) - x / u\<bar> \<le> 1 / 2"
    by (rule round_half_even_bounds)
  then have "\<bar>of_int (round_half_even (x / u)) - x / u\<bar> * u \<le> 1 / 2 * u"
    using upos by (intro mult_right_mono) simp_all
  moreover have "\<bar>of_int (round_half_even (x / u)) - x / u\<bar> * u = \<bar>fl x - x\<bar>"
  proof -
    have "(of_int (round_half_even (x / u)) - x / u) * u = fl x - x"
      using upos by (simp add: flx left_diff_distrib)
    then have "\<bar>fl x - x\<bar> = \<bar>of_int (round_half_even (x / u)) - x / u\<bar> * \<bar>u\<bar>"
      by (simp only: abs_mult[symmetric])
    then show ?thesis using upos by simp
  qed
  ultimately have a: "\<bar>fl x - x\<bar> \<le> u / 2" by simp
  have "u = 2 powi e / 2 ^ 52"
    by (simp add: u_def power_int_diff)
  moreover have "2 powi e \<le> \<bar>x\<bar>" unfolding e_def using False by (rule two_powi_floor_log_le)
  ultimately have "u / 2 \<le> \<bar>x\<bar> / 2 ^ 53" by (simp add: field_simps)
  with a show ?thesis by linarith
qed

lemma fl_eval:
  assumes "2 powi e \<le> \<bar>x\<bar>" and "\<bar>x\<bar> < 2 powi (e + 1)"
  shows "fl x = of_int (round_half_even (x / 2 powi (e - 52))) * 2 powi (e - 52)"
proof -
  have pos: "0 < \<bar>x\<bar>" using assms(1) by (smt (verit) zero_less_power_int)
  have p: "(2::real) powr (of_int n) = 2 powi n" for n :: int
    by (rule powr_real_of_int') simp_all
  have "2 powr (of_int e) \<le> \<bar>x\<bar>" "\<bar>x\<bar> < 2 powr (of_int (e + 1))"
    using assms unfolding p by blast+
  then have "of_int e \<le> log 2 \<bar>x\<bar>" "log 2 \<bar>x\<bar> < of_int (e + 1)"
    using pos by (simp_all add: le_log_iff log_less_iff)
  then have "\<lfloor>log 2 \<bar>x\<bar>\<rfloor> = e" by (simp add: floor_eq_iff)
  then show ?thesis using pos by (simp add: fl_def Let_def)
qed

lemma fl_0 [simp]: "fl 0 = 0"
  by (simp add: fl_def)

lemma fl_lower: "0 \<le> x \<Longrightarrow> x * (1 - 1 / 2 ^ 53) \<le> fl x"
proof -
  assume "0 \<le> x"
  then have "x - x / 2 ^ 53 \<le> fl x" using fl_error[of x] by linarith
  then show ?thesis by (simp only: right_diff_distrib mult_1_right times_divide_eq_right)
qed

lemma fl_upper: "0 \<le> x \<Longrightarrow> fl x \<le> x * (1 + 1 / 2 ^ 53)"
proof -
  assume "0 \<le> x"
  then have "fl x \<le> x + x / 2 ^ 53" using fl_error[of x] by linarith
  then show ?thesis by (simp only: distrib_left mult_1_right times_divide_eq_right)
qed

lemma fl_pos: "0 < x \<Longrightarrow> 0 < fl x"
proof -
  assume x: "0 < x"
  have "0 < x * (1 - 1 / 2 ^ 53)" using x by simp
  with fl_lower[of x] x show ?thesis by linarith
qed

lemma fl_neg: "x < 0 \<Longrightarrow> fl x < 0"
proof -
  assume x: "x < 0"
  have "fl x \<le> x + \<bar>x\<bar> / 2 ^ 53" using fl_error[of x] by linarith
  also have "\<dots> = x * (1 - 1 / 2 ^ 53)"
    using x by (simp only: abs_of_neg right_diff_distrib mult_1_right times_divide_eq_right)
  also have "\<dots> < 0" using x by (intro mult_neg_pos) simp_all
  finally show ?thesis .
qed


lemma fl_nonneg: "0 \<le> x \<Longrightarrow> 0 \<le> fl x"
  using fl_pos[of x] by (cases "x = 0") simp_all

lemma fl_eq_0_iff: "fl x = 0 \<longleftrightarrow> x = 0"
  using fl_pos[of x] fl_neg[of x] by (cases "x = 0"; cases "0 < x") auto

lemma fl_1e12_bounds: "1 / 2 ^ 40 \<le> fl (1 / 10 ^ 12)" "fl (1 / 10 ^ 12) \<le> 1 / 10 ^ 11"
proof -
  have "(1 / 10 ^ 12) * (1 - 1 / 2 ^ 53) \<le> fl (1 / 10 ^ 12)" by (rule fl_lower) simp
  moreover have "(1 / 2 ^ 40 :: real) \<le> (1 / 10 ^ 12) * (1 - 1 / 2 ^ 53)" by simp
  ultimately show "1 / 2 ^ 40 \<le> fl (1 / 10 ^ 12)" by linarith
  have "fl (1 / 10 ^ 12) \<le> (1 / 10 ^ 12) * (1 + 1 / 2 ^ 53)" by (rule fl_upper) simp
  moreover have "(1 / 10 ^ 12) * (1 + 1 / 2 ^ 53) \<le> (1 / 10 ^ 11 :: real)" by simp
  ultimately show "fl (1 / 10 ^ 12) \<le> 1 / 10 ^ 11" by linarith
qed

section \<open>The amortization schedule: what \<open>tableau_amortissement\<close> returns\<close>

lemma py_pow_int_ge_1:
  assumes "1 \<le> a" and "0 < n"
  shows "py_pow_int a (- n) = Inr (a powi (- n))" and "0 < a powi (- n)" and "a powi (- n) \<le> 1 / a"
proof -
  have apos: "0 < a" using assms(1) by simp
  have pw: "a powi (- n) = 1 / a ^ nat n"
    using assms(2) by (simp add: power_int_def inverse_eq_divide power_one_over)
  have "a \<le> a ^ nat n" using assms by (intro self_le_power) simp_all
  then have le: "1 / a ^ nat n \<le> 1 / a" using apos by (simp add: frac_le)
  show "0 < a powi (- n)" using apos by simp
  show "a powi (- n) \<le> 1 / a" using le pw by simp
  have "1 / a \<le> 1" using assms(1) by simp
  then have "\<bar>a powi (- n)\<bar> \<le> 1" using le pw apos by simp
  moreover have "(1::real) < dbl_overflow" by (simp add: dbl_overflow_def)
  ultimately have "\<not> dbl_overflow \<le> \<bar>a powi (- n)\<bar>" by linarith
  then show "py_pow_int a (- n) = Inr (a powi (- n))"
    using assms(2) apos by (simp add: py_pow_int_def)
qed

lemma formule_annuite_ok:
  assumes "0 < n" and "1 / 2 ^ 40 \<le> i"
  shows "formule_annuite capital n i =
           Inr (fl (capital * fl (i / fl (1 - fl (fl (1 + i) powi (- n))))))"
proof -
  define a where "a = fl (1 + i)"
  define p where "p = fl (a powi (- n))"
  have ipos: "0 < i" using assms(2) by (smt (verit) zero_less_power zero_less_divide_1_iff)
  have "(1 + i) * (1 - 1 / 2 ^ 53) \<le> a" unfolding a_def using ipos by (intro fl_lower) simp
  moreover have "1 + i / 2 \<le> (1 + i) * (1 - 1 / 2 ^ 53)"
    using assms(2) by (simp add: algebra_simps)
  ultimately have a: "1 + i / 2 \<le> a" by linarith
  then have a1: "1 \<le> a" using ipos by simp
  note pw = py_pow_int_ge_1[OF a1 assms(1)]
  have "p \<le> a powi (- n) * (1 + 1 / 2 ^ 53)"
    unfolding p_def using pw(2) by (intro fl_upper) simp
  also have "\<dots> \<le> (1 / a) * (1 + 1 / 2 ^ 53)"
    using pw(3) by (intro mult_right_mono) simp_all
  also have "\<dots> \<le> (1 / (1 + i / 2)) * (1 + 1 / 2 ^ 53)"
    using a ipos by (intro mult_right_mono frac_le) simp_all
  also have "\<dots> < 1" using assms(2) ipos by (simp add: field_simps)
  finally have "p < 1" .
  then have "0 < fl (1 - p)" by (intro fl_pos) simp
  then have d: "fl (1 - p) \<noteq> 0" by simp
  show ?thesis
    unfolding formule_annuite_def a_def[symmetric] pw(1) sum.case p_def[symmetric]
    using d by (simp add: py_div_def)
qed

lemma mensualite_brute_valid:
  assumes "0 < n" and "0 \<le> i \<or> \<bar>i\<bar> < fl (1 / 10 ^ 12)"
  shows "mensualite_brute capital n i = Inr (paiement_double capital n i)"
proof (cases "\<bar>i\<bar> < fl (1 / 10 ^ 12)")
  case True
  then show ?thesis
    using assms(1) by (simp add: mensualite_brute_def paiement_double_def py_div_def)
next
  case False
  then have "fl (1 / 10 ^ 12) \<le> i" using assms(2) by linarith
  then have "1 / 2 ^ 40 \<le> i" using fl_1e12_bounds(1) by linarith
  then show ?thesis
    using False formule_annuite_ok[OF assms(1)]
    by (simp add: mensualite_brute_def paiement_double_def)
qed

lemma tableau_amortissement_valid:
  assumes "0 < duree" and "0 \<le> taux \<or> \<bar>fl (taux / 12)\<bar> < fl (1 / 10 ^ 12)"
  shows "tableau_amortissement capital duree taux =
     (let mens = py_round2 (paiement_double capital (duree * 12) (fl (taux / 12)));
          df = map round_row (amort_rows mens (taux / 12) (duree * 12) capital)
      in Inr (mens, df, py_round2 (sum_list (map Interets df)),
              py_round2 (sum_list (map Valeur_mensualite df) - capital)))"
proof -
  have n: "0 < duree * 12" using assms(1) by simp
  have r: "0 \<le> fl (taux / 12) \<or> \<bar>fl (taux / 12)\<bar> < fl (1 / 10 ^ 12)"
    using assms(2) fl_nonneg[of "taux / 12"] by auto
  show ?thesis
    unfolding tableau_amortissement_def Let_def mensualite_brute_valid[OF n r]
    using n by simp
qed

lemma tableau_amortissement_duree:
  "duree \<le> 0 \<Longrightarrow> tableau_amortissement capital duree taux = Inl (ValueError Duree_doit_etre_positive)"
  by (simp add: tableau_amortissement_def)

lemma tableau_amortissement_Inr_duree:
  "tableau_amortissement capital duree taux = Inr r \<Longrightarrow> 0 < duree"
  using tableau_amortissement_duree[of duree capital taux] by (cases "duree \<le> 0") auto

lemma CRD_round_row [simp]: "CRD (round_row r) = py_round2 (CRD r)"
  and Interets_round_row [simp]: "Interets (round_row r) = py_round2 (Interets r)"
  and Capital_rembourse_round_row [simp]: "Capital_rembourse (round_row r) = py_round2 (Capital_rembourse r)"
  and Valeur_round_row [simp]: "Valeur_mensualite (round_row r) = py_round2 (Valeur_mensualite r)"
  by (simp_all add: round_row_def)

text \<open>
  Claim C1. For a valid input (\<open>capital > 0\<close>, \<open>duree_annees > 0\<close>, \<open>taux_annuel \<ge> 0\<close>)
  \<open>tableau_amortissement\<close> returns a table of \<open>12 * duree_annees\<close> rows whose last row
  has the balance 0. Before the table is rounded, the last row repays the whole balance
  of the row before it, its interest is that balance times the monthly rate and its
  payment is the sum of the two; the principal portions add up to the capital. In the
  rounded table the last payment is that sum rounded, and the principal portions add up
  to the capital within 0.01 per row.
\<close>

theorem schedule_final_row_and_principal:
  assumes "0 < capital" and "0 < duree" and "0 \<le> taux"
  shows "\<exists>mens ti ct rows.
      tableau_amortissement capital duree taux = Inr (mens, map round_row rows, ti, ct)
    \<and> rows = amort_rows mens (taux / 12) (duree * 12) capital
    \<and> length (map round_row rows) = nat (12 * duree)
    \<and> CRD (last (map round_row rows)) = 0
    \<and> Capital_rembourse (last rows) = CRD (rows ! (nat (12 * duree) - 2))
    \<and> Interets (last rows) = CRD (rows ! (nat (12 * duree) - 2)) * (taux / 12)
    \<and> Valeur_mensualite (last rows) = Interets (last rows) + CRD (rows ! (nat (12 * duree) - 2))
    \<and> Valeur_mensualite (last (map round_row rows))
        = py_round2 (Interets (last rows) + CRD (rows ! (nat (12 * duree) - 2)))
    \<and> sum_list (map Capital_rembourse rows) = capital
    \<and> \<bar>sum_list (map Capital_rembourse (map round_row rows)) - capital\<bar>
        \<le> real (nat (12 * duree)) / 100"
proof -
  define n where "n = duree * 12"
  define i where "i = taux / 12"
  define mens where "mens = py_round2 (paiement_double capital (duree * 12) (fl (taux / 12)))"
  define rows where "rows = amort_rows mens i n capital"
  define ti where "ti = py_round2 (sum_list (map Interets (map round_row rows)))"
  define ct where "ct = py_round2 (sum_list (map Valeur_mensualite (map round_row rows)) - capital)"
  have n1: "1 \<le> n" and n12: "12 \<le> n" using assms(2) by (simp_all add: n_def)
  have nn: "nat (12 * duree) = nat n" by (simp add: n_def mult.commute)
  have c1: "tableau_amortissement capital duree taux = Inr (mens, map round_row rows, ti, ct)"
    using assms(2,3)
    by (simp add: tableau_amortissement_valid Let_def mens_def rows_def i_def n_def ti_def ct_def)
  have c2: "rows = amort_rows mens (taux / 12) (duree * 12) capital"
    by (simp add: rows_def i_def n_def)
  have len: "length rows = nat n" by (simp add: rows_def length_amort_rows n1)
  then have c3: "length (map round_row rows) = nat (12 * duree)" by (simp add: nn)
  have ne: "rows \<noteq> []" using len n1 by auto
  have lastr: "last rows = derniere_ligne i n (solde mens i capital (nat (n - 1)))"
    by (simp add: rows_def last_amort_rows n1)
  have lastdf: "last (map round_row rows) = round_row (last rows)"
    using ne by (simp add: last_map)
  have idx: "nat n - 2 < nat (n - 1)" and suc: "Suc (nat n - 2) = nat (n - 1)"
    using n12 by auto
  have "CRD (rows ! (nat n - 2)) = solde mens i capital (nat (n - 1))"
    unfolding rows_def nth_amort_rows[OF n1 idx] by (simp add: ligne_def suc del: solde.simps)
  then have prev: "CRD (rows ! (nat (12 * duree) - 2)) = solde mens i capital (nat (n - 1))"
    by (simp add: nn)
  have c4: "CRD (last (map round_row rows)) = 0"
    by (simp add: lastdf lastr derniere_ligne_def py_round2_zero)
  have c5: "Capital_rembourse (last rows) = CRD (rows ! (nat (12 * duree) - 2))"
    by (simp add: prev lastr derniere_ligne_def)
  have c6: "Interets (last rows) = CRD (rows ! (nat (12 * duree) - 2)) * (taux / 12)"
    by (simp add: prev lastr derniere_ligne_def i_def)
  have c7: "Valeur_mensualite (last rows) = Interets (last rows) + CRD (rows ! (nat (12 * duree) - 2))"
    by (simp add: prev lastr derniere_ligne_def)
  have c8: "Valeur_mensualite (last (map round_row rows))
        = py_round2 (Interets (last rows) + CRD (rows ! (nat (12 * duree) - 2)))"
    by (simp add: lastdf c7)
  have c9: "sum_list (map Capital_rembourse rows) = capital"
    by (simp add: rows_def sum_capital_rembourse n1)
  have "\<bar>sum_list (map py_round2 (map Capital_rembourse rows)) - sum_list (map Capital_rembourse rows)\<bar>
        \<le> real (length (map Capital_rembourse rows)) / 200"
    by (rule sum_list_py_round2)
  then have c10: "\<bar>sum_list (map Capital_rembourse (map round_row rows)) - capital\<bar>
        \<le> real (nat (12 * duree)) / 100"
    by (simp add: c9 len nn comp_def)
  from c1 c2 c3 c4 c5 c6 c7 c8 c9 c10 show ?thesis by blast
qed

theorem schedule_final_row_and_principal_witness:
  "(0::real) < 200000 \<and> (0::int) < 20 \<and> (0::real) \<le> 35 / 1000 \<and>
   (\<exists>mens ti ct rows.
      tableau_amortissement 200000 20 (35 / 1000) = Inr (mens, map round_row rows, ti, ct)
    \<and> rows = amort_rows mens (35 / 1000 / 12) (20 * 12) 200000
    \<and> length (map round_row rows) = nat (12 * 20)
    \<and> CRD (last (map round_row rows)) = 0
    \<and> Capital_rembourse (last rows) = CRD (rows ! (nat (12 * 20) - 2))
    \<and> Interets (last rows) = CRD (rows ! (nat (12 * 20) - 2)) * (35 / 1000 / 12)
    \<and> Valeur_mensualite (last rows) = Interets (last rows) + CRD (rows ! (nat (12 * 20) - 2))
    \<and> Valeur_mensualite (last (map round_row rows))
        = py_round2 (Interets (last rows) + CRD (rows ! (nat (12 * 20) - 2)))
    \<and> sum_list (map Capital_rembourse rows) = 200000
    \<and> \<bar>sum_list (map Capital_rembourse (map round_row rows)) - 200000\<bar>
        \<le> real (nat (12 * 20)) / 100)"
proof -
  have h1: "(0::real) < 200000" and h2: "(0::int) < 20" and h3: "(0::real) \<le> 35 / 1000"
    by simp_all
  from h1 h2 h3 schedule_final_row_and_principal[OF h1 h2 h3] show ?thesis by blast
qed



lemma map_CRD_amort_rows:
  "1 \<le> n \<Longrightarrow> map CRD (map round_row (amort_rows mens i n c)) =
     map (\<lambda>k. py_round2 (solde mens i c (Suc k))) [0..<nat (n - 1)] @ [0]"
  by (simp add: amort_rows_eq comp_def ligne_def derniere_ligne_def py_round2_zero del: solde.simps)






lemma paiement_double_1200:
  "paiement_double 1200 12 (fl (1 / 100)) = 7502613217201861 / 70368744177664"
proof -
  have i: "fl (1 / 100) = 5764607523034235 / 576460752303423488"
    by (subst fl_eval[of "-7"]) (simp_all add: round_half_even_def)
  have a: "fl (1 + 5764607523034235 / 576460752303423488) = 4548635623644201 / 4503599627370496"
    by (subst fl_eval[of 0]) (simp_all add: round_half_even_def)
  have p: "fl ((4548635623644201 / 4503599627370496) powi (- 12))
             = 3996716000214381 / 4503599627370496"
    by (subst fl_eval[of "-1"]) (simp_all add: round_half_even_def power_int_minus power_divide)
  have d: "fl (1 - 3996716000214381 / 4503599627370496) = 506883627156115 / 4503599627370496"
    by (subst fl_eval[of "-4"]) (simp_all add: round_half_even_def)
  have r: "fl (5764607523034235 / 576460752303423488 / (506883627156115 / 4503599627370496))
             = 1600557486336397 / 18014398509481984"
    by (subst fl_eval[of "-4"]) (simp_all add: round_half_even_def)
  have m: "fl (1200 * (1600557486336397 / 18014398509481984)) = 7502613217201861 / 70368744177664"
    by (subst fl_eval[of 6]) (simp_all add: round_half_even_def)
  have big: "\<not> \<bar>5764607523034235 / 576460752303423488 :: real\<bar> < fl (1 / 10 ^ 12)"
    using fl_1e12_bounds(2) by simp
  show ?thesis
    unfolding paiement_double_def i using big by (simp only: if_False a p d r m)
qed



lemma sorted_wrt_map_upt_antimono:
  assumes "\<And>j k. j \<le> k \<Longrightarrow> k < K \<Longrightarrow> f k \<le> f j"
  shows "sorted_wrt (\<lambda>a b. b \<le> a) (map f [0..<K])"
proof -
  have "sorted_wrt (\<lambda>j k. f k \<le> f j) [0..<K]"
    by (rule sorted_wrt_mono_rel[OF _ sorted_wrt_upt]) (simp add: assms)
  then show ?thesis by (simp add: sorted_wrt_map)
qed

lemma solde_closed:
  "solde mens i c K = c * (1 + i) ^ K - mens * (\<Sum>k<K. (1 + i) ^ k)"
proof (induction K)
  case 0
  then show ?case by simp
next
  case (Suc K)
  have "solde mens i c (Suc K) = solde mens i c K * (1 + i) - mens"
    by (simp add: algebra_simps)
  also have "\<dots> = c * (1 + i) ^ Suc K - mens * ((1 + i) * (\<Sum>k<K. (1 + i) ^ k) + 1)"
    unfolding Suc.IH by (simp add: algebra_simps)
  also have "(1 + i) * (\<Sum>k<K. (1 + i) ^ k) + 1 = (\<Sum>k<Suc K. (1 + i) ^ k)"
    by (simp add: sum_distrib_left sum.lessThan_Suc_shift del: sum.lessThan_Suc)
  finally show ?case .
qed

text \<open>
  Claim C6, as amended. When the rate is not negative and the rounded payment is at
  least the interest of the first month (\<open>capital * taux_annuel / 12\<close>), the balance
  column of the table never increases from month 1 to month \<open>N - 1\<close>. The last row sets
  the balance to 0: this last step does not increase the balance exactly when the
  balance of month \<open>N - 1\<close> is not negative, and it is not negative whenever the rounded
  payment repays no more than the capital in \<open>N - 1\<close> months, that is
  \<open>mensualite * (1 + (1 + i_m) + ... + (1 + i_m) ^ (N - 2)) \<le> capital * (1 + i_m) ^ (N - 1)\<close>.
\<close>

theorem crd_non_increasing:
  assumes "tableau_amortissement capital duree taux = Inr (mens, df, ti, ct)"
    and "0 \<le> taux" and "capital * (taux / 12) \<le> mens"
  shows "sorted_wrt (\<lambda>a b. b \<le> a) (map CRD (butlast df))
       \<and> (sorted_wrt (\<lambda>a b. b \<le> a) (map CRD df) \<longleftrightarrow> 0 \<le> CRD (df ! (length df - 2)))
       \<and> (mens * (\<Sum>k<nat (12 * duree) - 1. (1 + taux / 12) ^ k)
             \<le> capital * (1 + taux / 12) ^ (nat (12 * duree) - 1)
           \<longrightarrow> sorted_wrt (\<lambda>a b. b \<le> a) (map CRD df))"
proof -
  define n where "n = duree * 12"
  define i where "i = taux / 12"
  define xs where "xs = map (\<lambda>k. py_round2 (solde mens i capital (Suc k))) [0..<nat (n - 1)]"
  have d: "0 < duree" using assms(1) by (rule tableau_amortissement_Inr_duree)
  then have n1: "1 \<le> n" and n12: "12 \<le> n" by (simp_all add: n_def)
  have nn: "nat (12 * duree) - 1 = nat (n - 1)" using d by (simp add: n_def mult.commute)
  have i0: "0 \<le> i" using assms(2) by (simp add: i_def)
  have ci: "capital * i \<le> mens" using assms(3) by (simp add: i_def)
  have df: "df = map round_row (amort_rows mens i n capital)"
    using assms(1,2) d by (auto simp: tableau_amortissement_valid Let_def i_def n_def)
  have crds: "map CRD df = xs @ [0]"
    unfolding df xs_def by (rule map_CRD_amort_rows[OF n1])
  have lxs: "length xs = nat (n - 1)" by (simp add: xs_def)
  have len: "length df = nat n" unfolding df by (simp add: length_amort_rows n1)
  have "map CRD (butlast df) = butlast (map CRD df)" by (simp add: map_butlast)
  then have crdb: "map CRD (butlast df) = xs" by (simp add: crds)
  have idx: "nat n - 2 < nat (n - 1)" and suc: "Suc (nat n - 2) = nat (n - 1)"
    using n12 by auto
  have "CRD (df ! (nat n - 2)) = map CRD df ! (nat n - 2)"
    using len n12 by (simp add: nth_map)
  also have "\<dots> = xs ! (nat n - 2)"
    unfolding crds using idx lxs by (simp add: nth_append)
  also have "\<dots> = py_round2 (solde mens i capital (nat (n - 1)))"
    unfolding xs_def using idx suc by (simp del: solde.simps)
  finally have pen: "CRD (df ! (length df - 2)) = py_round2 (solde mens i capital (nat (n - 1)))"
    by (simp add: len)
  have pen_in: "py_round2 (solde mens i capital (nat (n - 1))) \<in> set xs"
  proof -
    have "xs ! (nat n - 2) \<in> set xs" using idx lxs by (intro nth_mem) simp
    moreover have "xs ! (nat n - 2) = py_round2 (solde mens i capital (nat (n - 1)))"
      unfolding xs_def using idx suc by (simp del: solde.simps)
    ultimately show ?thesis by simp
  qed
  have anti: "py_round2 (solde mens i capital (Suc k)) \<le> py_round2 (solde mens i capital (Suc j))"
    if "j \<le> k" for j k
    by (rule py_round2_mono, rule solde_antimono[OF i0 ci]) (simp add: that)
  have s1: "sorted_wrt (\<lambda>a b. b \<le> a) xs"
    unfolding xs_def by (rule sorted_wrt_map_upt_antimono) (rule anti)
  have ge: "py_round2 (solde mens i capital (nat (n - 1))) \<le> x" if mem: "x \<in> set xs" for x
  proof -
    obtain k where k: "k < nat (n - 1)" and x: "x = py_round2 (solde mens i capital (Suc k))"
      using mem unfolding xs_def by (auto simp del: solde.simps)
    have "Suc k \<le> nat (n - 1)" using k by simp
    then have "solde mens i capital (nat (n - 1)) \<le> solde mens i capital (Suc k)"
      by (rule solde_antimono[OF i0 ci])
    then show ?thesis unfolding x by (rule py_round2_mono)
  qed
  have whole: "sorted_wrt (\<lambda>a b. b \<le> a) (map CRD df) \<longleftrightarrow> 0 \<le> CRD (df ! (length df - 2))"
  proof
    assume "sorted_wrt (\<lambda>a b. b \<le> a) (map CRD df)"
    then have "\<forall>x\<in>set xs. 0 \<le> x" unfolding crds by (simp add: sorted_wrt_append)
    then show "0 \<le> CRD (df ! (length df - 2))" unfolding pen using pen_in by blast
  next
    assume "0 \<le> CRD (df ! (length df - 2))"
    then have p: "0 \<le> py_round2 (solde mens i capital (nat (n - 1)))" by (simp only: pen)
    have "\<forall>x\<in>set xs. 0 \<le> x"
    proof
      fix x assume "x \<in> set xs"
      then have "py_round2 (solde mens i capital (nat (n - 1))) \<le> x" by (rule ge)
      with p show "0 \<le> x" by linarith
    qed
    then show "sorted_wrt (\<lambda>a b. b \<le> a) (map CRD df)"
      unfolding crds using s1 by (simp add: sorted_wrt_append)
  qed
  have suff: "mens * (\<Sum>k<nat (12 * duree) - 1. (1 + taux / 12) ^ k)
             \<le> capital * (1 + taux / 12) ^ (nat (12 * duree) - 1)
           \<longrightarrow> sorted_wrt (\<lambda>a b. b \<le> a) (map CRD df)"
  proof
    assume "mens * (\<Sum>k<nat (12 * duree) - 1. (1 + taux / 12) ^ k)
             \<le> capital * (1 + taux / 12) ^ (nat (12 * duree) - 1)"
    then have "mens * (\<Sum>k<nat (n - 1). (1 + i) ^ k) \<le> capital * (1 + i) ^ nat (n - 1)"
      unfolding nn i_def .
    then have "0 \<le> solde mens i capital (nat (n - 1))"
      unfolding solde_closed[of mens i capital "nat (n - 1)"] by simp
    then have "0 \<le> py_round2 (solde mens i capital (nat (n - 1)))" by (rule py_round2_nonneg)
    then have "0 \<le> CRD (df ! (length df - 2))" by (simp only: pen)
    then show "sorted_wrt (\<lambda>a b. b \<le> a) (map CRD df)" using whole by blast
  qed
  from s1 crdb whole suff show ?thesis by simp
qed


lemma tableau_1200_12:
  "\<exists>df ti ct. tableau_amortissement 1200 1 (12 / 100) = Inr (10662 / 100, df, ti, ct)
     \<and> df = map round_row (amort_rows (10662 / 100) (1 / 100) 12 1200)"
proof -
  have g: "(0::int) < 1" and h: "(0::real) \<le> 12 / 100 \<or> \<bar>fl (12 / 100 / 12)\<bar> < fl (1 / 10 ^ 12)"
    by simp_all
  have m: "py_round2 (paiement_double 1200 12 (fl (1 / 100))) = 5331 / 50"
    unfolding paiement_double_1200 by (simp add: py_round2_def round_half_even_def)
  show ?thesis
    unfolding tableau_amortissement_valid[OF g h] by (simp add: Let_def m)
qed

text \<open>
  A loan of 1200 over one year at 12 %: the payment 106.62 is above the interest 12 of
  the first month, the balance of month 11 is 105.5461... rounded to 105.55, and the
  column decreases down to the 0 of month 12.
\<close>

theorem crd_non_increasing_witness:
  "\<exists>df ti ct. tableau_amortissement 1200 1 (12 / 100) = Inr (10662 / 100, df, ti, ct)
     \<and> (0::real) \<le> 12 / 100 \<and> (1200::real) * (12 / 100 / 12) \<le> 10662 / 100
     \<and> length df = 12 \<and> CRD (df ! 10) = 10555 / 100
     \<and> sorted_wrt (\<lambda>a b. b \<le> a) (map CRD (butlast df))
     \<and> 10662 / 100 * (\<Sum>k<nat (12 * 1) - 1. (1 + 12 / 100 / 12) ^ k)
           \<le> (1200::real) * (1 + 12 / 100 / 12) ^ (nat (12 * 1) - 1)
     \<and> sorted_wrt (\<lambda>a b. b \<le> a) (map CRD df)
     \<and> 0 \<le> CRD (df ! (length df - 2))"
proof -
  obtain df ti ct where
    r: "tableau_amortissement 1200 1 (12 / 100) = Inr (10662 / 100, df, ti, ct)"
    and df: "df = map round_row (amort_rows (10662 / 100) (1 / 100) 12 1200)"
    using tableau_1200_12 by blast
  have h2: "(0::real) \<le> 12 / 100" and h3: "(1200::real) * (12 / 100 / 12) \<le> 10662 / 100"
    by simp_all
  have len: "length df = 12" unfolding df by (simp add: length_amort_rows)
  have "CRD (df ! 10) = py_round2 (solde (10662 / 100) (1 / 100) 1200 11)"
    unfolding df by (simp add: length_amort_rows nth_amort_rows ligne_def del: solde.simps)
  also have "\<dots> = 10555 / 100"
    unfolding solde_closed
    by (simp add: py_round2_def round_half_even_def lessThan_nat_numeral power_divide)
  finally have pen: "CRD (df ! 10) = 10555 / 100" .
  have cond: "10662 / 100 * (\<Sum>k<nat (12 * 1) - 1. (1 + 12 / 100 / 12) ^ k)
           \<le> (1200::real) * (1 + 12 / 100 / 12) ^ (nat (12 * 1) - 1)"
    by (simp add: lessThan_nat_numeral power_divide)
  note t = crd_non_increasing[OF r h2 h3]
  have s1: "sorted_wrt (\<lambda>a b. b \<le> a) (map CRD (butlast df))" using t by blast
  have s2: "sorted_wrt (\<lambda>a b. b \<le> a) (map CRD df)" using t cond by blast
  have s3: "0 \<le> CRD (df ! (length df - 2))" using t s2 by blast
  from r h2 h3 len pen s1 cond s2 s3 show ?thesis by blast
qed

text \<open>
  A loan of 100 over 30 years at the rate 0: the payment 0.2777... is rounded up to 0.28,
  the balance of month 359 is \<open>100 - 359 * 0.28 = -0.52\<close>, and month 360 sets it to 0.
\<close>

theorem crd_increases_counterexample:
  "map_sum id (\<lambda>r. (CRD (fst (snd r) ! 358), CRD (fst (snd r) ! 359)))
     (tableau_amortissement 100 30 0) = Inr (- 52 / 100, 0)"
proof -
  have g: "(0::int) < 30" and h: "(0::real) \<le> 0 \<or> \<bar>fl (0 / 12)\<bar> < fl (1 / 10 ^ 12)"
    by simp_all
  have z: "\<bar>0::real\<bar> < fl (1 / 10 ^ 12)"
    using fl_1e12_bounds(1) by (simp add: less_le_trans)
  have f: "fl (5 / 18) = 2501999792983609 / 9007199254740992"
    by (subst fl_eval[of "-2"]) (simp_all add: round_half_even_def)
  have "paiement_double 100 360 0 = fl (5 / 18)"
    using z by (simp add: paiement_double_def)
  then have p: "paiement_double 100 360 0 = 2501999792983609 / 9007199254740992"
    by (simp only: f)
  have m: "py_round2 (paiement_double 100 360 0) = 7 / 25"
    unfolding p by (simp add: py_round2_def round_half_even_def)
  have a: "CRD (map round_row (amort_rows (7 / 25) 0 360 100) ! 358) = py_round2 (solde (7 / 25) 0 100 359)"
    by (simp add: length_amort_rows nth_amort_rows ligne_def del: solde.simps)
  have a': "py_round2 (solde (7 / 25) 0 100 359) = - (13 / 25)"
    unfolding solde_zero_rate by (simp add: py_round2_def round_half_even_def)
  have b: "CRD (map round_row (amort_rows (7 / 25) 0 360 100) ! 359) = 0"
    using nth_amort_rows_last[of 360 "7 / 25" 0 100]
    by (simp add: length_amort_rows derniere_ligne_def py_round2_zero)
  show ?thesis
    unfolding tableau_amortissement_valid[OF g h]
    by (simp add: Let_def m a a' b)
qed

section \<open>Validation of the inputs\<close>

lemma tableau_amortissement_racine_capital:
  "capital \<le> 0 \<Longrightarrow>
   tableau_amortissement_racine capital duree taux = Inl (ValueError Capital_doit_etre_gt_0)"
  by (simp add: tableau_amortissement_racine_def)

lemma tableau_amortissement_racine_duree:
  "0 < capital \<Longrightarrow> duree \<le> 0 \<Longrightarrow>
   tableau_amortissement_racine capital duree taux = Inl (ValueError Duree_doit_etre_gt_0)"
  by (simp add: tableau_amortissement_racine_def)

lemma tableau_amortissement_racine_taux:
  "0 < capital \<Longrightarrow> 0 < duree \<Longrightarrow> taux < 0 \<Longrightarrow>
   tableau_amortissement_racine capital duree taux = Inl (ValueError Taux_annuel_doit_etre_ge_0)"
  by (simp add: tableau_amortissement_racine_def)

lemma fl_minus_100: "fl (- 100) = - 100"
  by (subst fl_eval[of 6]) (simp_all add: round_half_even_def)

lemma mensualite_brute_taux_negatif:
  "\<exists>m0. mensualite_brute 1200 (1 * 12) (fl (- 12 / 100 / 12)) = Inr m0"
proof -
  have i: "fl (- 12 / 100 / 12) = - (5764607523034235 / 576460752303423488)"
    by (subst fl_eval[of "-7"]) (simp_all add: round_half_even_def)
  have a: "fl (1 + - (5764607523034235 / 576460752303423488)) = 4458563631096791 / 4503599627370496"
    by (subst fl_eval[of "-1"]) (simp_all add: round_half_even_def)
  have p: "fl ((4458563631096791 / 4503599627370496) powi (- (1 * 12)))
             = 2540431234262313 / 2251799813685248"
    by (subst fl_eval[of 0]) (simp_all add: round_half_even_def power_int_minus power_divide)
  have big: "\<not> \<bar>- (5764607523034235 / 576460752303423488) :: real\<bar> < fl (1 / 10 ^ 12)"
    using fl_1e12_bounds(2) by simp
  have pw: "py_pow_int (4458563631096791 / 4503599627370496) (- (1 * 12))
              = Inr ((4458563631096791 / 4503599627370496) powi (- (1 * 12)))"
    by (simp add: py_pow_int_def dbl_overflow_def power_int_minus power_divide)
  have d: "fl (1 - 2540431234262313 / 2251799813685248) \<noteq> 0"
    by (simp add: fl_eq_0_iff)
  show ?thesis
    unfolding mensualite_brute_def formule_annuite_def i a
    using big d by (simp only: if_False pw sum.case p py_div_def) simp
qed

text \<open>
  Claim C5. \<open>ProjetActuariat/loan_core.py\<close> checks the duration only: a capital that is
  not positive and a negative rate go through to a schedule, where \<open>loan_core.py\<close> at
  the root of the repository raises a \<open>ValueError\<close> that names the field.
\<close>

theorem capital_and_taux_not_validated:
  "map_sum id fst (tableau_amortissement (- 1200) 1 0) = Inr (- 100)
   \<and> \<not> isl (tableau_amortissement 1200 1 (- 12 / 100))
   \<and> tableau_amortissement_racine (- 1200) 1 0 = Inl (ValueError Capital_doit_etre_gt_0)
   \<and> tableau_amortissement_racine 1200 1 (- 12 / 100) = Inl (ValueError Taux_annuel_doit_etre_ge_0)"
proof -
  have g: "(0::int) < 1" and h: "(0::real) \<le> 0 \<or> \<bar>fl (0 / 12)\<bar> < fl (1 / 10 ^ 12)"
    by simp_all
  have z: "\<bar>0::real\<bar> < fl (1 / 10 ^ 12)"
    using fl_1e12_bounds(1) by (simp add: less_le_trans)
  have "paiement_double (- 1200) 12 0 = fl (- 100)"
    using z by (simp add: paiement_double_def)
  then have m: "py_round2 (paiement_double (- 1200) 12 0) = - 100"
    unfolding fl_minus_100 by (simp add: py_round2_def round_half_even_def)
  have a: "map_sum id fst (tableau_amortissement (- 1200) 1 0) = Inr (- 100)"
    unfolding tableau_amortissement_valid[OF g h] by (simp add: Let_def m)
  obtain m0 where mb: "mensualite_brute 1200 (1 * 12) (fl (- 12 / 100 / 12)) = Inr m0"
    using mensualite_brute_taux_negatif by blast
  have b: "\<not> isl (tableau_amortissement 1200 1 (- 12 / 100))"
    unfolding tableau_amortissement_def Let_def mb by simp
  show ?thesis
    using a b by (simp add: tableau_amortissement_racine_def)
qed

section \<open>The monthly mortality lists\<close>

lemma py_log_max: "py_log (max (1 / 10 ^ 15) x) = Inr (ln (max (1 / 10 ^ 15) x))"
  by (simp add: py_log_def max_def)

lemma fold_append_map: "fold (\<lambda>m acc. acc @ [f m]) ms acc = acc @ map f ms"
  by (induction ms arbitrary: acc) simp_all

lemma death_loop_eq: "death_loop qs S probs = Inr (probs @ death_list qs S)"
proof (induction qs arbitrary: S probs)
  case Nil
  then show ?case by simp
next
  case (Cons q qs)
  show ?case
    unfolding death_loop.simps py_log_max
    by (simp add: Let_def fold_append_map Cons.IH death_year_def mu_of_def)
qed

lemma survival_loop_eq: "survival_loop qs S acc = Inr (acc @ survival_list qs S)"
proof (induction qs arbitrary: S acc)
  case Nil
  then show ?case by simp
next
  case (Cons q qs)
  show ?case
    unfolding survival_loop.simps py_log_max
    by (simp add: Let_def fold_append_map Cons.IH survival_year_def mu_of_def)
qed

lemma monthly_death_probs_eq:
  "monthly_death_probs_from_annual_q qs = Inr (death_list qs 1)"
  by (simp add: monthly_death_probs_from_annual_q_def death_loop_eq)

lemma monthly_survival_eq:
  "monthly_survival_to_month_start_from_annual_q qs = Inr (survival_list qs 1)"
  by (simp add: monthly_survival_to_month_start_from_annual_q_def survival_loop_eq)

lemma length_death_year [simp]: "length (death_year S q) = 12"
  by (simp add: death_year_def)

lemma length_survival_year [simp]: "length (survival_year S q) = 12"
  by (simp add: survival_year_def)

lemma length_death_list: "length (death_list qs S) = 12 * length qs"
  by (induction qs arbitrary: S) simp_all

lemma length_survival_list: "length (survival_list qs S) = 12 * length qs"
  by (induction qs arbitrary: S) simp_all

lemma exp_mu_of: "exp (- mu_of q) = max (1 / 10 ^ 15) (1 - q)"
  by (simp add: mu_of_def max_def)

lemma mu_of_nonneg: "0 \<le> q \<Longrightarrow> 0 \<le> mu_of q"
  by (simp add: mu_of_def max_def)

lemma telescope_months:
  "sum_list (map (\<lambda>m. S * (exp (- mu * (real m - 1) / 12) - exp (- mu * real m / 12))) [1..<Suc K])
     = S * (1 - exp (- mu * real K / 12))"
proof (induction K)
  case 0
  then show ?case by simp
next
  case (Suc K)
  have "[1..<Suc (Suc K)] = [1..<Suc K] @ [Suc K]" by simp
  then show ?case using Suc by (simp add: algebra_simps)
qed

lemma sum_death_year: "sum_list (death_year S q) = S * (1 - max (1 / 10 ^ 15) (1 - q))"
proof -
  have "[1..<13] = [1..<Suc 12]" by simp
  then have "sum_list (death_year S q) = S * (1 - exp (- mu_of q * real 12 / 12))"
    unfolding death_year_def by (simp only: telescope_months)
  then show ?thesis by (simp add: exp_mu_of)
qed


text \<open>
  Claim C2, as amended. One year of \<open>monthly_death_probs_from_annual_q\<close>, run from any
  starting survival \<open>S\<close>: the twelve probabilities and \<open>S * max(1e-15, 1 - q)\<close> add up to
  \<open>S\<close>. So they add up to \<open>S\<close> with the next year's starting survival \<open>S * (1 - q)\<close>
  for every \<open>q \<le> 1 - 1e-15\<close>, the values of \<open>q\<close> the clamp before the logarithm leaves
  alone.
\<close>

theorem death_probs_conserve_mass:
  "\<exists>ps. death_loop [q] S [] = Inr ps \<and> length ps = 12
      \<and> sum_list ps + S * max (1 / 10 ^ 15) (1 - q) = S
      \<and> (q \<le> 1 - 1 / 10 ^ 15 \<longrightarrow> sum_list ps + S * (1 - q) = S)"
proof -
  have a: "death_loop [q] S [] = Inr (death_year S q)" by (simp add: death_loop_eq)
  have b: "sum_list (death_year S q) + S * max (1 / 10 ^ 15) (1 - q) = S"
    by (simp add: sum_death_year algebra_simps)
  have c: "q \<le> 1 - 1 / 10 ^ 15 \<longrightarrow> sum_list (death_year S q) + S * (1 - q) = S"
  proof
    assume "q \<le> 1 - 1 / 10 ^ 15"
    then have "max (1 / 10 ^ 15) (1 - q) = 1 - q" by (simp add: max_def)
    with b show "sum_list (death_year S q) + S * (1 - q) = S" by simp
  qed
  from a b c show ?thesis by (intro exI[of _ "death_year S q"]) simp
qed

theorem death_probs_conserve_mass_witness:
  "(1 / 2 :: real) \<le> 1 - 1 / 10 ^ 15 \<and>
   (\<exists>ps. death_loop [1 / 2] 1 [] = Inr ps \<and> length ps = 12
      \<and> sum_list ps + 1 * (1 - 1 / 2) = 1)"
proof -
  have h: "(1 / 2 :: real) \<le> 1 - 1 / 10 ^ 15" by simp
  from death_probs_conserve_mass[of "1 / 2" 1] h show ?thesis by blast
qed

text \<open>
  At \<open>q = 1\<close> the clamp makes the twelve probabilities add up to \<open>1 - 1e-15\<close>, and the
  next year starts from the survival 0.
\<close>

theorem death_probs_clamp_counterexample:
  "monthly_death_probs_from_annual_q [1] = death_loop [1] 1 []
   \<and> map_sum id (\<lambda>ps. sum_list ps + 1 * (1 - 1)) (death_loop [1] 1 []) = Inr (1 - 1 / 10 ^ 15)
   \<and> (1 - 1 / 10 ^ 15 :: real) \<noteq> 1"
  by (simp add: monthly_death_probs_from_annual_q_def death_loop_eq sum_death_year)


lemma nth_death_year:
  "j < 12 \<Longrightarrow> death_year S q ! j =
     S * (exp (- mu_of q * real j / 12) - exp (- mu_of q * (real j + 1) / 12))"
  by (simp add: death_year_def add.commute)

lemma nth_survival_year:
  "j < 12 \<Longrightarrow> survival_year S q ! j = S * exp (- mu_of q * (real j / 12))"
  by (simp add: survival_year_def)

lemma nth_death_list:
  "k < length qs \<Longrightarrow> j < 12 \<Longrightarrow>
   death_list qs S ! (12 * k + j) =
     S * prod_list (map (\<lambda>q. 1 - q) (take k qs))
       * (exp (- mu_of (qs ! k) * real j / 12) - exp (- mu_of (qs ! k) * (real j + 1) / 12))"
proof (induction qs arbitrary: S k)
  case Nil
  then show ?case by simp
next
  case (Cons q qs)
  show ?case
  proof (cases k)
    case 0
    then show ?thesis using Cons.prems by (simp add: nth_append nth_death_year)
  next
    case (Suc k')
    then have k': "k' < length qs" using Cons.prems by simp
    have "death_list (q # qs) S ! (12 * k + j) = death_list qs (S * (1 - q)) ! (12 * k' + j)"
      using Suc by (simp add: nth_append)
    then show ?thesis
      using Cons.IH[OF k' Cons.prems(2), of "S * (1 - q)"] Suc by (simp add: mult.assoc)
  qed
qed

lemma nth_survival_list:
  "k < length qs \<Longrightarrow> j < 12 \<Longrightarrow>
   survival_list qs S ! (12 * k + j) =
     S * prod_list (map (\<lambda>q. 1 - q) (take k qs)) * exp (- mu_of (qs ! k) * (real j / 12))"
proof (induction qs arbitrary: S k)
  case Nil
  then show ?case by simp
next
  case (Cons q qs)
  show ?case
  proof (cases k)
    case 0
    then show ?thesis using Cons.prems by (simp add: nth_append nth_survival_year)
  next
    case (Suc k')
    then have k': "k' < length qs" using Cons.prems by simp
    have "survival_list (q # qs) S ! (12 * k + j) = survival_list qs (S * (1 - q)) ! (12 * k' + j)"
      using Suc by (simp add: nth_append)
    then show ?thesis
      using Cons.IH[OF k' Cons.prems(2), of "S * (1 - q)"] Suc by (simp add: mult.assoc)
  qed
qed

text \<open>
  Claim C8, as amended. The two functions never fail: for every list of \<open>n\<close> years, the
  empty list and values of \<open>q\<close> outside \<open>[0, 1]\<close> included, each returns a list of
  \<open>12 * n\<close> values, the years in order: the value at index \<open>12 * k + j\<close> is the one of
  month \<open>j + 1\<close> of year \<open>k\<close>, computed from the survival to the start of that year, the
  product of \<open>1 - q\<close> over the years before.
\<close>

theorem monthly_lists_total:
  "\<exists>d s. monthly_death_probs_from_annual_q qs = Inr d
      \<and> monthly_survival_to_month_start_from_annual_q qs = Inr s
      \<and> length d = 12 * length qs \<and> length s = 12 * length qs
      \<and> (\<forall>k j. k < length qs \<and> j < 12 \<longrightarrow>
            d ! (12 * k + j) =
              prod_list (map (\<lambda>q. 1 - q) (take k qs))
                * (exp (ln (max (1 / 10 ^ 15) (1 - qs ! k)) * real j / 12)
                   - exp (ln (max (1 / 10 ^ 15) (1 - qs ! k)) * (real j + 1) / 12))
          \<and> s ! (12 * k + j) =
              prod_list (map (\<lambda>q. 1 - q) (take k qs))
                * exp (ln (max (1 / 10 ^ 15) (1 - qs ! k)) * (real j / 12)))"
proof -
  have "\<forall>k j. k < length qs \<and> j < 12 \<longrightarrow>
            death_list qs 1 ! (12 * k + j) =
              prod_list (map (\<lambda>q. 1 - q) (take k qs))
                * (exp (ln (max (1 / 10 ^ 15) (1 - qs ! k)) * real j / 12)
                   - exp (ln (max (1 / 10 ^ 15) (1 - qs ! k)) * (real j + 1) / 12))
          \<and> survival_list qs 1 ! (12 * k + j) =
              prod_list (map (\<lambda>q. 1 - q) (take k qs))
                * exp (ln (max (1 / 10 ^ 15) (1 - qs ! k)) * (real j / 12))"
    using nth_death_list[of _ qs _ 1] nth_survival_list[of _ qs _ 1]
    by (simp add: mu_of_def)
  then show ?thesis
    unfolding monthly_death_probs_eq monthly_survival_eq
    by (intro exI[of _ "death_list qs 1"] exI[of _ "survival_list qs 1"])
       (simp add: length_death_list length_survival_list)
qed

theorem monthly_lists_total_witness:
  "\<exists>d s. monthly_death_probs_from_annual_q [0, 2] = Inr d
      \<and> monthly_survival_to_month_start_from_annual_q [0, 2] = Inr s
      \<and> length d = 24 \<and> length s = 24
      \<and> d ! 12 = 1 - exp (ln (1 / 10 ^ 15) / 12) \<and> s ! 12 = 1"
proof -
  obtain d s where r: "monthly_death_probs_from_annual_q [0, 2] = Inr d"
      "monthly_survival_to_month_start_from_annual_q [0, 2] = Inr s"
      "length d = 12 * length [0, 2 :: real]" "length s = 12 * length [0, 2 :: real]"
    and n: "\<forall>k j. k < length [0, 2 :: real] \<and> j < 12 \<longrightarrow>
            d ! (12 * k + j) =
              prod_list (map (\<lambda>q. 1 - q) (take k [0, 2]))
                * (exp (ln (max (1 / 10 ^ 15) (1 - [0, 2] ! k)) * real j / 12)
                   - exp (ln (max (1 / 10 ^ 15) (1 - [0, 2] ! k)) * (real j + 1) / 12))
          \<and> s ! (12 * k + j) =
              prod_list (map (\<lambda>q. 1 - q) (take k [0, 2]))
                * exp (ln (max (1 / 10 ^ 15) (1 - [0, 2] ! k)) * (real j / 12))"
    using monthly_lists_total[of "[0, 2]"] by blast
  have "d ! (12 * 1 + 0) = 1 - exp (ln (1 / 10 ^ 15) / 12) \<and> s ! (12 * 1 + 0) = 1"
    using n[rule_format, of 1 0] by simp
  then show ?thesis using r by simp
qed

text \<open>
  Neither function fails on the empty list, on \<open>q = 2\<close> or on \<open>q = -1\<close>.
\<close>

theorem monthly_lists_never_fail_counterexample:
  "monthly_death_probs_from_annual_q [] = Inr []
   \<and> monthly_survival_to_month_start_from_annual_q [] = Inr []
   \<and> \<not> isl (monthly_death_probs_from_annual_q [2])
   \<and> \<not> isl (monthly_survival_to_month_start_from_annual_q [- 1])"
  by (simp add: monthly_death_probs_eq monthly_survival_eq)

lemma death_year_nonneg:
  assumes "0 \<le> S" "0 \<le> q"
  shows "\<forall>p\<in>set (death_year S q). 0 \<le> p"
proof
  fix p assume "p \<in> set (death_year S q)"
  then obtain m :: nat where
    p: "p = S * (exp (- mu_of q * (real m - 1) / 12) - exp (- mu_of q * real m / 12))"
    by (auto simp: death_year_def)
  have "mu_of q * (real m - 1) \<le> mu_of q * real m"
    using mu_of_nonneg[OF assms(2)] by (intro mult_left_mono) simp_all
  then have "- mu_of q * real m / 12 \<le> - mu_of q * (real m - 1) / 12" by simp
  then have "exp (- mu_of q * real m / 12) \<le> exp (- mu_of q * (real m - 1) / 12)"
    by (simp only: exp_le_cancel_iff)
  then have "0 \<le> exp (- mu_of q * (real m - 1) / 12) - exp (- mu_of q * real m / 12)"
    by simp
  then show "0 \<le> p" unfolding p using assms(1) by (rule mult_nonneg_nonneg[rotated])
qed

lemma death_list_nonneg:
  "0 \<le> S \<Longrightarrow> \<forall>q\<in>set qs. 0 \<le> q \<and> q \<le> 1 \<Longrightarrow> \<forall>p\<in>set (death_list qs S). 0 \<le> p"
proof (induction qs arbitrary: S)
  case Nil
  then show ?case by simp
next
  case (Cons q qs)
  have q: "0 \<le> q" "q \<le> 1" and qs: "\<forall>q\<in>set qs. 0 \<le> q \<and> q \<le> 1"
    using Cons.prems(2) by simp_all
  have "0 \<le> S * (1 - q)" using Cons.prems(1) q by simp
  then have rest: "\<forall>p\<in>set (death_list qs (S * (1 - q))). 0 \<le> p"
    using qs by (rule Cons.IH)
  have year: "\<forall>p\<in>set (death_year S q). 0 \<le> p"
    using Cons.prems(1) q(1) by (rule death_year_nonneg)
  show ?case
  proof
    fix p assume "p \<in> set (death_list (q # qs) S)"
    then have "p \<in> set (death_year S q) \<or> p \<in> set (death_list qs (S * (1 - q)))"
      by simp
    then show "0 \<le> p" using year rest by blast
  qed
qed

lemma exp_mu_of_frac:
  assumes "0 \<le> q" "0 \<le> x" "x \<le> 1"
  shows "exp (- mu_of q) \<le> exp (- mu_of q * x)" and "exp (- mu_of q * x) \<le> 1"
proof -
  have "mu_of q * x \<le> mu_of q * 1"
    using mu_of_nonneg[OF assms(1)] assms(3) by (rule mult_left_mono[rotated])
  then show "exp (- mu_of q) \<le> exp (- mu_of q * x)" by simp
  have "0 \<le> mu_of q * x" using mu_of_nonneg[OF assms(1)] assms(2) by simp
  then show "exp (- mu_of q * x) \<le> 1" by simp
qed

lemma survival_year_bounds:
  assumes "0 \<le> S" "0 \<le> q"
  shows "\<forall>x\<in>set (survival_year S q). S * max (1 / 10 ^ 15) (1 - q) \<le> x \<and> x \<le> S"
proof
  fix x assume "x \<in> set (survival_year S q)"
  then obtain j :: nat where j: "1 \<le> j" "j < 13"
    and x: "x = S * exp (- mu_of q * ((real j - 1) / 12))"
    by (auto simp: survival_year_def)
  have r: "0 \<le> (real j - 1) / 12" "(real j - 1) / 12 \<le> 1" using j by simp_all
  have "S * exp (- mu_of q) \<le> S * exp (- mu_of q * ((real j - 1) / 12))"
    using exp_mu_of_frac(1)[OF assms(2) r] assms(1) by (rule mult_left_mono)
  moreover have "S * exp (- mu_of q * ((real j - 1) / 12)) \<le> S * 1"
    using exp_mu_of_frac(2)[OF assms(2) r] assms(1) by (rule mult_left_mono)
  ultimately show "S * max (1 / 10 ^ 15) (1 - q) \<le> x \<and> x \<le> S"
    unfolding x exp_mu_of by simp
qed

lemma survival_year_sorted:
  assumes "0 \<le> S" "0 \<le> q"
  shows "sorted_wrt (\<lambda>a b. b \<le> a) (survival_year S q)"
proof -
  have "sorted_wrt (\<lambda>j k. S * exp (- mu_of q * ((real k - 1) / 12))
                          \<le> S * exp (- mu_of q * ((real j - 1) / 12))) [1..<13]"
  proof (rule sorted_wrt_mono_rel[OF _ sorted_wrt_upt])
    fix j k :: nat
    assume "j < k"
    then have "mu_of q * ((real j - 1) / 12) \<le> mu_of q * ((real k - 1) / 12)"
      using mu_of_nonneg[OF assms(2)] by (intro mult_left_mono) simp_all
    then show "S * exp (- mu_of q * ((real k - 1) / 12)) \<le> S * exp (- mu_of q * ((real j - 1) / 12))"
      using assms(1) by (intro mult_left_mono) simp_all
  qed
  then show ?thesis by (simp add: survival_year_def sorted_wrt_map)
qed

lemma survival_list_bounds:
  "0 \<le> S \<Longrightarrow> \<forall>q\<in>set qs. 0 \<le> q \<and> q \<le> 1 \<Longrightarrow> \<forall>x\<in>set (survival_list qs S). 0 \<le> x \<and> x \<le> S"
proof (induction qs arbitrary: S)
  case Nil
  then show ?case by simp
next
  case (Cons q qs)
  have q: "0 \<le> q" "q \<le> 1" and qs: "\<forall>q\<in>set qs. 0 \<le> q \<and> q \<le> 1"
    using Cons.prems(2) by simp_all
  have S': "0 \<le> S * (1 - q)" "S * (1 - q) \<le> S"
    using Cons.prems(1) q by (simp_all add: mult_left_le)
  have rest: "\<forall>x\<in>set (survival_list qs (S * (1 - q))). 0 \<le> x \<and> x \<le> S * (1 - q)"
    using S'(1) qs by (rule Cons.IH)
  have low: "0 \<le> S * max (1 / 10 ^ 15) (1 - q)" using Cons.prems(1) by simp
  have year: "\<forall>x\<in>set (survival_year S q). S * max (1 / 10 ^ 15) (1 - q) \<le> x \<and> x \<le> S"
    using Cons.prems(1) q(1) by (rule survival_year_bounds)
  show ?case
  proof
    fix x assume "x \<in> set (survival_list (q # qs) S)"
    then consider "x \<in> set (survival_year S q)" | "x \<in> set (survival_list qs (S * (1 - q)))"
      by auto
    then show "0 \<le> x \<and> x \<le> S"
    proof cases
      case 1
      then have "S * max (1 / 10 ^ 15) (1 - q) \<le> x \<and> x \<le> S" using year by blast
      then show ?thesis using low by linarith
    next
      case 2
      then have "0 \<le> x \<and> x \<le> S * (1 - q)" using rest by blast
      then show ?thesis using S'(2) by linarith
    qed
  qed
qed

lemma survival_list_sorted:
  "0 \<le> S \<Longrightarrow> \<forall>q\<in>set qs. 0 \<le> q \<and> q \<le> 1 \<Longrightarrow>
   sorted_wrt (\<lambda>a b. b \<le> a) (survival_list qs S)"
proof (induction qs arbitrary: S)
  case Nil
  then show ?case by simp
next
  case (Cons q qs)
  have q: "0 \<le> q" "q \<le> 1" using Cons.prems(2) by simp_all
  have S': "0 \<le> S * (1 - q)" using Cons.prems(1) q by simp
  have qs: "\<forall>q\<in>set qs. 0 \<le> q \<and> q \<le> 1" using Cons.prems(2) by simp
  have le: "S * (1 - q) \<le> S * max (1 / 10 ^ 15) (1 - q)"
    using Cons.prems(1) by (intro mult_left_mono) simp_all
  have cross: "y \<le> x" if "x \<in> set (survival_year S q)" "y \<in> set (survival_list qs (S * (1 - q)))" for x y
  proof -
    have "y \<le> S * (1 - q)" using survival_list_bounds[OF S' qs] that(2) by blast
    moreover have "S * max (1 / 10 ^ 15) (1 - q) \<le> x"
      using survival_year_bounds[OF Cons.prems(1) q(1)] that(1) by blast
    ultimately show ?thesis using le by linarith
  qed
  show ?case
    using survival_year_sorted[OF Cons.prems(1) q(1)] Cons.IH[OF S' qs] cross
    by (simp add: sorted_wrt_append)
qed

lemma survival_year_pos: "0 < S \<Longrightarrow> \<forall>x\<in>set (survival_year S q). 0 < x"
  by (auto simp: survival_year_def)

lemma survival_list_pos:
  "0 < S \<Longrightarrow> \<forall>q\<in>set (butlast qs). q < 1 \<Longrightarrow> \<forall>x\<in>set (survival_list qs S). 0 < x"
proof (induction qs arbitrary: S)
  case Nil
  then show ?case by simp
next
  case (Cons q qs)
  have year: "\<forall>x\<in>set (survival_year S q). 0 < x"
    using Cons.prems(1) by (rule survival_year_pos)
  show ?case
  proof (cases "qs = []")
    case True
    then show ?thesis using year by simp
  next
    case False
    then have "q < 1" and b: "\<forall>q\<in>set (butlast qs). q < 1" using Cons.prems(2) by simp_all
    then have "0 < S * (1 - q)" using Cons.prems(1) by simp
    then have rest: "\<forall>x\<in>set (survival_list qs (S * (1 - q))). 0 < x"
      using b by (rule Cons.IH)
    show ?thesis
    proof
      fix x assume "x \<in> set (survival_list (q # qs) S)"
      then have "x \<in> set (survival_year S q) \<or> x \<in> set (survival_list qs (S * (1 - q)))"
        by simp
      then show "0 < x" using year rest by blast
    qed
  qed
qed

text \<open>
  Claim C10, as amended. When every \<open>q\<close> of the list is in \<open>[0, 1]\<close>, every monthly death
  probability is at least 0, every survival to the start of a month is in \<open>[0, 1]\<close>, and
  the survival list never increases, year boundaries included. The survivals are all
  above 0 when every \<open>q\<close> but the last is below 1; after a year with \<open>q = 1\<close> they are 0.
\<close>

theorem monthly_lists_ranges:
  assumes "\<forall>q\<in>set qs. 0 \<le> q \<and> q \<le> 1"
  shows "\<exists>d s. monthly_death_probs_from_annual_q qs = Inr d
      \<and> monthly_survival_to_month_start_from_annual_q qs = Inr s
      \<and> (\<forall>p\<in>set d. 0 \<le> p)
      \<and> (\<forall>x\<in>set s. 0 \<le> x \<and> x \<le> 1)
      \<and> sorted_wrt (\<lambda>a b. b \<le> a) s
      \<and> ((\<forall>q\<in>set (butlast qs). q < 1) \<longrightarrow> (\<forall>x\<in>set s. 0 < x))"
proof -
  have one: "(0::real) \<le> 1" "(0::real) < 1" by simp_all
  have a: "\<forall>p\<in>set (death_list qs 1). 0 \<le> p"
    using one(1) assms by (rule death_list_nonneg)
  have b: "\<forall>x\<in>set (survival_list qs 1). 0 \<le> x \<and> x \<le> 1"
    using one(1) assms by (rule survival_list_bounds)
  have c: "sorted_wrt (\<lambda>a b. b \<le> a) (survival_list qs 1)"
    using one(1) assms by (rule survival_list_sorted)
  have d: "(\<forall>q\<in>set (butlast qs). q < 1) \<longrightarrow> (\<forall>x\<in>set (survival_list qs 1). 0 < x)"
    using survival_list_pos[OF one(2)] by blast
  from monthly_death_probs_eq[of qs] monthly_survival_eq[of qs] a b c d
  show ?thesis by blast
qed

theorem monthly_lists_ranges_witness:
  "list_all (\<lambda>q. 0 \<le> q \<and> q \<le> 1) [1 / 100, 1 :: real]
   \<and> list_all (\<lambda>q. q < 1) (butlast [1 / 100, 1 :: real])
   \<and> (\<exists>d s. monthly_death_probs_from_annual_q [1 / 100, 1] = Inr d
      \<and> monthly_survival_to_month_start_from_annual_q [1 / 100, 1] = Inr s
      \<and> (\<forall>p\<in>set d. 0 \<le> p)
      \<and> (\<forall>x\<in>set s. 0 \<le> x \<and> x \<le> 1)
      \<and> sorted_wrt (\<lambda>a b. b \<le> a) s
      \<and> (\<forall>x\<in>set s. 0 < x))"
proof -
  have h1: "\<forall>q\<in>set [1 / 100, 1 :: real]. 0 \<le> q \<and> q \<le> 1" by simp
  have h2: "\<forall>q\<in>set (butlast [1 / 100, 1 :: real]). q < 1" by simp
  obtain d s where r: "monthly_death_probs_from_annual_q [1 / 100, 1] = Inr d"
      "monthly_survival_to_month_start_from_annual_q [1 / 100, 1] = Inr s"
      "\<forall>p\<in>set d. 0 \<le> p" "\<forall>x\<in>set s. 0 \<le> x \<and> x \<le> 1"
      "sorted_wrt (\<lambda>a b. b \<le> a) s"
    and i: "(\<forall>q\<in>set (butlast [1 / 100, 1 :: real]). q < 1) \<longrightarrow> (\<forall>x\<in>set s. 0 < x)"
    using monthly_lists_ranges[OF h1] by blast
  from i h2 have p: "\<forall>x\<in>set s. 0 < x" by (rule mp)
  have "\<exists>d s. monthly_death_probs_from_annual_q [1 / 100, 1] = Inr d
      \<and> monthly_survival_to_month_start_from_annual_q [1 / 100, 1] = Inr s
      \<and> (\<forall>p\<in>set d. 0 \<le> p)
      \<and> (\<forall>x\<in>set s. 0 \<le> x \<and> x \<le> 1)
      \<and> sorted_wrt (\<lambda>a b. b \<le> a) s
      \<and> (\<forall>x\<in>set s. 0 < x)"
    using r p by (intro exI[of _ d] exI[of _ s] conjI)
  moreover have "list_all (\<lambda>q. 0 \<le> q \<and> q \<le> 1) [1 / 100, 1 :: real]"
    and "list_all (\<lambda>q. q < 1) (butlast [1 / 100, 1 :: real])" by simp_all
  ultimately show ?thesis by (intro conjI)
qed

text \<open>
  After a year with \<open>q = 1\<close> the survival to the start of the next year is
  \<open>1 * (1 - 1) = 0\<close>: the first month of the second year has the survival 0.
\<close>

theorem survival_zero_counterexample:
  "map_sum id (\<lambda>s. s ! 12) (monthly_survival_to_month_start_from_annual_q [1, 0]) = Inr 0"
proof -
  have "survival_list [1, 0] 1 ! (12 * 1 + 0) =
     1 * prod_list (map (\<lambda>q. 1 - q) (take 1 [1, 0])) * exp (- mu_of ([1, 0] ! 1) * (real 0 / 12))"
    by (rule nth_survival_list) simp_all
  then have "survival_list [1, 0] 1 ! 12 = 0" by simp
  then show ?thesis unfolding monthly_survival_eq by simp
qed

section \<open>The present values\<close>

lemma cis_pi_int: "cis (pi * of_int k) = of_real ((- 1) powi k)"
proof -
  have "cis (pi * of_int k) = cis pi powi k"
    unfolding cis_power_int by (simp only: mult.commute)
  also have "\<dots> = (- 1) powi k" by (simp only: cis_pi)
  also have "\<dots> = of_real ((- 1) powi k)"
    by (simp add: power_int_def)
  finally show ?thesis .
qed

lemma puissance_pos: "0 < x \<Longrightarrow> puissance x y = of_real (x powr y)"
  by (simp add: puissance_def)

lemma py_pow_puissance:
  assumes "x \<noteq> 0" and "\<bar>x\<bar> powr y < dbl_overflow"
  shows "py_pow x y = Inr (puissance x y)"
proof (cases "y = 0")
  case True
  then show ?thesis using assms(1) by (simp add: py_pow_def puissance_def)
next
  case y: False
  show ?thesis
  proof (cases "0 < x")
    case True
    then show ?thesis using y assms(2) by (simp add: py_pow_def puissance_def)
  next
    case False
    then have neg: "x < 0" using assms(1) by simp
    show ?thesis
    proof (cases "of_int \<lfloor>y\<rfloor> = y")
      case True
      define k where "k = \<lfloor>y\<rfloor>"
      have yk: "y = of_int k" using True unfolding k_def by (rule sym)
      have ax': "\<bar>x\<bar> powr of_int k = \<bar>x\<bar> powi k"
        using assms(1) by (intro powr_real_of_int') simp_all
      then have ax: "\<bar>x\<bar> powr y = \<bar>x\<bar> powi k" by (simp only: yk)
      have "x powi k = (- 1 * \<bar>x\<bar>) powi k" using neg by simp
      also have "\<dots> = (- 1) powi k * \<bar>x\<bar> powi k" by (rule power_int_mult_distrib)
      finally have xk: "x powi k = (- 1) powi k * \<bar>x\<bar> powi k" .
      have "\<bar>x powi k\<bar> = \<bar>x\<bar> powi k" by (rule power_int_abs)
      then have no: "\<not> dbl_overflow \<le> \<bar>x powi k\<bar>" using assms(2) ax by simp
      have "py_pow x y = Inr (of_real (x powi k))"
        using y neg True no by (simp add: py_pow_def k_def)
      also have "of_real (x powi k) = of_real (\<bar>x\<bar> powr y) * cis (pi * y)"
        by (simp only: yk ax' xk cis_pi_int of_real_mult mult.commute)
      finally show ?thesis using neg by (simp add: puissance_def)
    next
      case False
      then show ?thesis using y neg assms(2) by (simp add: py_pow_def puissance_def)
    qed
  qed
qed

lemma discount_bound:
  assumes "b \<noteq> 0" and "\<bar>b\<bar> powr (- real N / 12) < dbl_overflow" and "j \<le> N"
  shows "\<bar>b\<bar> powr (- real j / 12) < dbl_overflow"
proof (cases "1 \<le> \<bar>b\<bar>")
  case True
  have "\<bar>b\<bar> powr (- real j / 12) \<le> \<bar>b\<bar> powr 0"
    using True by (intro powr_mono) simp_all
  then have "\<bar>b\<bar> powr (- real j / 12) \<le> 1" using assms(1) by simp
  moreover have "(1::real) < dbl_overflow" by (simp add: dbl_overflow_def)
  ultimately show ?thesis by linarith
next
  case False
  have "\<bar>b\<bar> powr (- real j / 12) \<le> \<bar>b\<bar> powr (- real N / 12)"
    using False assms(3) by (intro powr_mono') simp_all
  with assms(2) show ?thesis by linarith
qed

lemma discount_bound_nonneg:
  assumes "0 \<le> i"
  shows "1 + i \<noteq> 0" and "\<bar>1 + i\<bar> powr (- real N / 12) < dbl_overflow"
proof -
  show "1 + i \<noteq> 0" using assms by simp
  have "\<bar>1 + i\<bar> powr (- real N / 12) \<le> \<bar>1 + i\<bar> powr 0"
    using assms by (intro powr_mono) simp_all
  then have "\<bar>1 + i\<bar> powr (- real N / 12) \<le> 1" using assms by simp
  moreover have "(1::real) < dbl_overflow" by (simp add: dbl_overflow_def)
  ultimately show "\<bar>1 + i\<bar> powr (- real N / 12) < dbl_overflow" by linarith
qed

lemma premium_loop_eq:
  assumes "1 + i \<noteq> 0"
    and "\<And>j. j < m + length zs \<Longrightarrow> \<bar>1 + i\<bar> powr (- real j / 12) < dbl_overflow"
  shows "premium_loop i m zs U =
     Inr (U + (\<Sum>k<length zs. puissance (1 + i) (- real (m + k) / 12)
                 * of_real (snd (zs ! k)) * of_real (fst (zs ! k))))"
  using assms(2)
proof (induction zs arbitrary: m U)
  case Nil
  then show ?case by simp
next
  case (Cons z zs)
  have "\<bar>1 + i\<bar> powr (- real m / 12) < dbl_overflow" by (rule Cons.prems) simp
  then have pw: "py_pow (1 + i) (- real m / 12) = Inr (puissance (1 + i) (- real m / 12))"
    by (rule py_pow_puissance[OF assms(1)])
  have IH: "premium_loop i (Suc m) zs U' =
     Inr (U' + (\<Sum>k<length zs. puissance (1 + i) (- real (Suc m + k) / 12)
                 * of_real (snd (zs ! k)) * of_real (fst (zs ! k))))" for U'
    by (rule Cons.IH) (rule Cons.prems, simp)
  show ?case
    unfolding premium_loop.simps pw sum.case IH
    by (simp add: sum.lessThan_Suc_shift algebra_simps del: sum.lessThan_Suc)
qed

lemma pv_loop_eq:
  assumes "1 + i \<noteq> 0"
    and "\<And>j. j < idx + length xs \<Longrightarrow> \<bar>1 + i\<bar> powr (- real j / 12) < dbl_overflow"
  shows "pv_loop i idx xs pv =
     Inr (pv + (\<Sum>k<length xs. puissance (1 + i) (- real (idx + k) / 12) * of_real (xs ! k)))"
  using assms(2)
proof (induction xs arbitrary: idx pv)
  case Nil
  then show ?case by simp
next
  case (Cons x xs)
  have "\<bar>1 + i\<bar> powr (- real idx / 12) < dbl_overflow" by (rule Cons.prems) simp
  then have pw: "py_pow (1 + i) (- real idx / 12) = Inr (puissance (1 + i) (- real idx / 12))"
    by (rule py_pow_puissance[OF assms(1)])
  have IH: "pv_loop i (Suc idx) xs pv' =
     Inr (pv' + (\<Sum>k<length xs. puissance (1 + i) (- real (Suc idx + k) / 12) * of_real (xs ! k)))"
    for pv'
    by (rule Cons.IH) (rule Cons.prems, simp)
  show ?case
    unfolding pv_loop.simps pw sum.case IH
    by (simp add: sum.lessThan_Suc_shift algebra_simps del: sum.lessThan_Suc)
qed

lemma sum_shift_one:
  "(\<Sum>k<n. f (Suc k)) = (\<Sum>m = 1..n. f m)"
proof -
  have "(\<Sum>m = 1..n. f m) = (\<Sum>m = Suc 0..<Suc n. f m)"
    by (simp add: atLeastLessThanSuc_atLeastAtMost)
  also have "\<dots> = (\<Sum>k = 0..<n. f (Suc k))" by (rule sum.shift_bounds_Suc_ivl)
  also have "\<dots> = (\<Sum>k<n. f (Suc k))" by (simp add: atLeast0LessThan)
  finally show ?thesis by simp
qed

lemma single_premium_general:
  assumes "length crd = length dp" and "1 + i \<noteq> 0"
    and "\<bar>1 + i\<bar> powr (- real (length crd) / 12) < dbl_overflow"
  shows "single_premium_monthly crd dp i =
     Inr (\<Sum>m = 1..length crd. puissance (1 + i) (- real m / 12)
            * of_real (dp ! (m - 1)) * of_real (crd ! (m - 1)))"
proof -
  have len: "length (zip crd dp) = length crd" using assms(1) by simp
  have b: "\<bar>1 + i\<bar> powr (- real j / 12) < dbl_overflow" if "j < 1 + length (zip crd dp)" for j
    using that by (intro discount_bound[OF assms(2,3)]) (simp add: len)
  have "(\<Sum>k<length (zip crd dp). puissance (1 + i) (- real (1 + k) / 12)
            * of_real (snd (zip crd dp ! k)) * of_real (fst (zip crd dp ! k)))
      = (\<Sum>k<length crd. puissance (1 + i) (- real (Suc k) / 12)
            * of_real (dp ! (Suc k - 1)) * of_real (crd ! (Suc k - 1)))"
    using assms(1) by (intro sum.cong) simp_all
  also have "\<dots> = (\<Sum>m = 1..length crd. puissance (1 + i) (- real m / 12)
            * of_real (dp ! (m - 1)) * of_real (crd ! (m - 1)))"
    by (rule sum_shift_one)
  finally have eq: "(\<Sum>k<length (zip crd dp). puissance (1 + i) (- real (1 + k) / 12)
            * of_real (snd (zip crd dp ! k)) * of_real (fst (zip crd dp ! k)))
      = (\<Sum>m = 1..length crd. puissance (1 + i) (- real m / 12)
            * of_real (dp ! (m - 1)) * of_real (crd ! (m - 1)))" .
  have "single_premium_monthly crd dp i = premium_loop i 1 (zip crd dp) 0"
    using assms(1) by (simp add: single_premium_monthly_def)
  also have "\<dots> = Inr (0 + (\<Sum>k<length (zip crd dp). puissance (1 + i) (- real (1 + k) / 12)
            * of_real (snd (zip crd dp ! k)) * of_real (fst (zip crd dp ! k))))"
    by (rule premium_loop_eq[OF assms(2) b])
  finally show ?thesis by (simp only: eq add_0)
qed


lemma puissance_sum_real:
  assumes "0 < b"
  shows "(\<Sum>k\<in>A. puissance b (e k) * of_real (f k) * of_real (g k))
       = of_real (\<Sum>k\<in>A. b powr (e k) * f k * g k)"
  by (simp add: puissance_pos[OF assms])

lemma puissance_sum_real1:
  assumes "0 < b"
  shows "(\<Sum>k\<in>A. puissance b (e k) * of_real (f k)) = of_real (\<Sum>k\<in>A. b powr (e k) * f k)"
  by (simp add: puissance_pos[OF assms])

text \<open>
  Claim C3. For two lists of the same length and a technical rate that is not negative,
  \<open>single_premium_monthly\<close> returns the sum over \<open>m = 1..N\<close> of
  \<open>(1 + i_annual) ** (-m / 12) * death_probs_monthly[m - 1] * crd_end_of_month[m - 1]\<close>.
  It returns this sum for every other rate too, as long as \<open>1 + i_annual\<close> is not 0 and
  the largest discount factor, that of month \<open>N\<close>, fits a double: as a float for a rate
  above \<open>-1\<close>, and with the complex powers of Python for a rate below \<open>-1\<close>. In all these
  cases the result is 0 when every death probability is 0.
\<close>

theorem single_premium_formula:
  assumes "length crd = length dp"
  shows "((0 \<le> i \<or> - 1 < i \<and> \<bar>1 + i\<bar> powr (- real (length crd) / 12) < dbl_overflow) \<longrightarrow>
            single_premium_monthly crd dp i =
              Inr (of_real (\<Sum>m = 1..length crd.
                     (1 + i) powr (- real m / 12) * dp ! (m - 1) * crd ! (m - 1))))
       \<and> (1 + i \<noteq> 0 \<and> \<bar>1 + i\<bar> powr (- real (length crd) / 12) < dbl_overflow \<longrightarrow>
            single_premium_monthly crd dp i =
              Inr (\<Sum>m = 1..length crd.
                     puissance (1 + i) (- real m / 12) * of_real (dp ! (m - 1)) * of_real (crd ! (m - 1))))
       \<and> ((0 \<le> i \<or> 1 + i \<noteq> 0 \<and> \<bar>1 + i\<bar> powr (- real (length crd) / 12) < dbl_overflow)
            \<and> (\<forall>p\<in>set dp. p = 0) \<longrightarrow>
            single_premium_monthly crd dp i = Inr 0)"
proof -
  have gen: "single_premium_monthly crd dp i =
              Inr (\<Sum>m = 1..length crd.
                     puissance (1 + i) (- real m / 12) * of_real (dp ! (m - 1)) * of_real (crd ! (m - 1)))"
    if "1 + i \<noteq> 0" and "\<bar>1 + i\<bar> powr (- real (length crd) / 12) < dbl_overflow"
    using assms that by (rule single_premium_general)
  have ok: "1 + i \<noteq> 0 \<and> \<bar>1 + i\<bar> powr (- real (length crd) / 12) < dbl_overflow"
    if "0 \<le> i \<or> 1 + i \<noteq> 0 \<and> \<bar>1 + i\<bar> powr (- real (length crd) / 12) < dbl_overflow"
    using that discount_bound_nonneg(1)[of i] discount_bound_nonneg(2)[of i "length crd"] by blast
  have a: "(0 \<le> i \<or> - 1 < i \<and> \<bar>1 + i\<bar> powr (- real (length crd) / 12) < dbl_overflow) \<longrightarrow>
            single_premium_monthly crd dp i =
              Inr (of_real (\<Sum>m = 1..length crd.
                     (1 + i) powr (- real m / 12) * dp ! (m - 1) * crd ! (m - 1)))"
  proof
    assume h: "0 \<le> i \<or> - 1 < i \<and> \<bar>1 + i\<bar> powr (- real (length crd) / 12) < dbl_overflow"
    then have pos: "0 < 1 + i" by auto
    have "0 \<le> i \<or> 1 + i \<noteq> 0 \<and> \<bar>1 + i\<bar> powr (- real (length crd) / 12) < dbl_overflow"
      using h by auto
    then have "1 + i \<noteq> 0 \<and> \<bar>1 + i\<bar> powr (- real (length crd) / 12) < dbl_overflow"
      by (rule ok)
    then have "single_premium_monthly crd dp i =
              Inr (\<Sum>m = 1..length crd.
                     puissance (1 + i) (- real m / 12) * of_real (dp ! (m - 1)) * of_real (crd ! (m - 1)))"
      using gen by blast
    then show "single_premium_monthly crd dp i =
              Inr (of_real (\<Sum>m = 1..length crd.
                     (1 + i) powr (- real m / 12) * dp ! (m - 1) * crd ! (m - 1)))"
      by (simp only: puissance_sum_real[OF pos])
  qed
  have b: "1 + i \<noteq> 0 \<and> \<bar>1 + i\<bar> powr (- real (length crd) / 12) < dbl_overflow \<longrightarrow>
            single_premium_monthly crd dp i =
              Inr (\<Sum>m = 1..length crd.
                     puissance (1 + i) (- real m / 12) * of_real (dp ! (m - 1)) * of_real (crd ! (m - 1)))"
    using gen by blast
  have c: "(0 \<le> i \<or> 1 + i \<noteq> 0 \<and> \<bar>1 + i\<bar> powr (- real (length crd) / 12) < dbl_overflow)
            \<and> (\<forall>p\<in>set dp. p = 0) \<longrightarrow>
            single_premium_monthly crd dp i = Inr 0"
  proof
    assume h: "(0 \<le> i \<or> 1 + i \<noteq> 0 \<and> \<bar>1 + i\<bar> powr (- real (length crd) / 12) < dbl_overflow)
            \<and> (\<forall>p\<in>set dp. p = 0)"
    then have z: "\<forall>p\<in>set dp. p = 0" by (rule conjunct2)
    have "1 + i \<noteq> 0 \<and> \<bar>1 + i\<bar> powr (- real (length crd) / 12) < dbl_overflow"
      using h by (intro ok) (rule conjunct1)
    then have eq: "single_premium_monthly crd dp i =
              Inr (\<Sum>m = 1..length crd.
                     puissance (1 + i) (- real m / 12) * of_real (dp ! (m - 1)) * of_real (crd ! (m - 1)))"
      using gen by blast
    have "(\<Sum>m = 1..length crd.
             puissance (1 + i) (- real m / 12) * of_real (dp ! (m - 1)) * of_real (crd ! (m - 1))) = 0"
    proof (rule sum.neutral, rule ballI)
      fix m assume "m \<in> {1..length crd}"
      then have "m - 1 < length dp" using assms by auto
      then have "dp ! (m - 1) = 0" using z by simp
      then show "puissance (1 + i) (- real m / 12) * of_real (dp ! (m - 1)) * of_real (crd ! (m - 1)) = 0"
        by simp
    qed
    with eq show "single_premium_monthly crd dp i = Inr 0" by simp
  qed
  from a b c show ?thesis by (intro conjI)
qed


text \<open>
  Two months at 3 %; one month at the rate \<open>-2\<close>, where the discount factor is the complex
  number \<open>(-1.0) ** (-1 / 12.0)\<close>; two months with the death probabilities 0.
\<close>

theorem single_premium_formula_witness:
  "length [1000, 500 :: real] = length [1 / 100, 2 / 100 :: real] \<and> (0 :: real) \<le> 3 / 100
   \<and> single_premium_monthly [1000, 500] [1 / 100, 2 / 100] (3 / 100) =
        Inr (of_real ((1 + 3 / 100) powr (- 1 / 12) * (1 / 100) * 1000
             + (1 + 3 / 100) powr (- 2 / 12) * (2 / 100) * 500))
   \<and> length [1000 :: real] = length [1 / 100 :: real]
   \<and> 1 + (- 2 :: real) \<noteq> 0
   \<and> \<bar>1 + (- 2 :: real)\<bar> powr (- real (length [1000 :: real]) / 12) < dbl_overflow
   \<and> single_premium_monthly [1000] [1 / 100] (- 2) = Inr (10 * cis (- pi / 12))
   \<and> length [1000, 500 :: real] = length [0, 0 :: real]
   \<and> list_all (\<lambda>p. p = 0) [0, 0 :: real]
   \<and> single_premium_monthly [1000, 500] [0, 0] (3 / 100) = Inr 0"
proof -
  have h1: "length [1000, 500 :: real] = length [1 / 100, 2 / 100 :: real]"
    and h2: "(0 :: real) \<le> 3 / 100"
    and h3: "length [1000 :: real] = length [1 / 100 :: real]"
    and h4: "1 + (- 2 :: real) \<noteq> 0"
    and h6: "length [1000, 500 :: real] = length [0, 0 :: real]"
    and h7: "list_all (\<lambda>p. p = 0) [0, 0 :: real]" by simp_all
  have h5: "\<bar>1 + (- 2 :: real)\<bar> powr (- real (length [1000 :: real]) / 12) < dbl_overflow"
    by (simp add: dbl_overflow_def)
  have a: "single_premium_monthly [1000, 500] [1 / 100, 2 / 100] (3 / 100) =
        Inr (of_real ((1 + 3 / 100) powr (- 1 / 12) * (1 / 100) * 1000
             + (1 + 3 / 100) powr (- 2 / 12) * (2 / 100) * 500))"
    using single_premium_formula[OF h1, of "3 / 100"] by (simp add: numeral_2_eq_2)
  have b: "single_premium_monthly [1000] [1 / 100] (- 2) = Inr (10 * cis (- pi / 12))"
    using single_premium_formula[OF h3, of "- 2"] h5 by (simp add: puissance_def)
  have c: "single_premium_monthly [1000, 500] [0, 0] (3 / 100) = Inr 0"
    using single_premium_formula[OF h6, of "3 / 100"] by simp
  from h1 h2 a h3 h4 h5 b h6 h7 c show ?thesis by (intro conjI)
qed

text \<open>
  Claim C7. When the two lists differ in length, \<open>single_premium_monthly\<close> raises the
  \<open>ValueError\<close> on the dimensions, whatever the rate, before any term is computed.
\<close>

theorem single_premium_dimension_mismatch:
  "length crd \<noteq> length dp \<Longrightarrow>
   single_premium_monthly crd dp i = Inl (ValueError Dimensions_incoherentes)"
  by (simp add: single_premium_monthly_def)

theorem single_premium_dimension_mismatch_witness:
  "length (replicate 240 (0::real)) \<noteq> length (replicate 180 (0::real))
   \<and> single_premium_monthly (replicate 240 0) (replicate 180 0) (3 / 100)
       = Inl (ValueError Dimensions_incoherentes)"
proof -
  have h: "length (replicate 240 (0::real)) \<noteq> length (replicate 180 (0::real))" by simp
  from h single_premium_dimension_mismatch[OF h] show ?thesis by (rule conjI)
qed


lemma survival_list_first:
  assumes "qs \<noteq> []"
  shows "survival_list qs 1 ! 0 = 1"
proof -
  have "survival_list qs 1 ! (12 * 0 + 0) =
      1 * prod_list (map (\<lambda>q. 1 - q) (take 0 qs)) * exp (- mu_of (qs ! 0) * (real 0 / 12))"
    using assms by (intro nth_survival_list) simp_all
  then show ?thesis by simp
qed

lemma py_pow_zero_exponent: "py_pow x 0 = Inr 1"
  by (simp add: py_pow_def)

lemma pv_general:
  assumes "1 + i \<noteq> 0"
    and "\<bar>1 + i\<bar> powr (- real (length xs - 1) / 12) < dbl_overflow"
  shows "pv_monthly_premiums_due xs i =
     Inr (\<Sum>idx<length xs. puissance (1 + i) (- real idx / 12) * of_real (xs ! idx))"
proof -
  have b: "\<bar>1 + i\<bar> powr (- real j / 12) < dbl_overflow" if "j < 0 + length xs" for j
    using that by (intro discount_bound[OF assms]) simp
  have "pv_monthly_premiums_due xs i = pv_loop i 0 xs 0"
    by (simp add: pv_monthly_premiums_due_def)
  also have "\<dots> = Inr (0 + (\<Sum>k<length xs. puissance (1 + i) (- real (0 + k) / 12) * of_real (xs ! k)))"
    by (rule pv_loop_eq[OF assms(1) b])
  finally show ?thesis by (simp only: add_0)
qed

text \<open>
  Claim C9. For a list of years that is not empty,
  \<open>monthly_survival_to_month_start_from_annual_q\<close> returns a list whose first value is
  exactly 1, and for a technical rate that is not negative \<open>pv_monthly_premiums_due\<close>
  returns the sum over \<open>idx = 0..N-1\<close> of \<open>(1 + i_annual) ** (-idx / 12) * survival[idx]\<close>.
  The discount factor of the first term, \<open>(1 + i_annual) ** (-0 / 12.0)\<close>, is 1 at every
  rate. The function returns the same sum for every other rate too, as long as
  \<open>1 + i_annual\<close> is not 0 and the discount factor of the last month fits a double.
\<close>

theorem annuity_due_formula:
  assumes "qs \<noteq> []"
  shows "\<exists>s. monthly_survival_to_month_start_from_annual_q qs = Inr s
      \<and> length s = 12 * length qs
      \<and> s ! 0 = 1
      \<and> py_pow (1 + i) (- real 0 / 12) = Inr 1
      \<and> ((0 \<le> i \<or> - 1 < i \<and> \<bar>1 + i\<bar> powr (- real (length s - 1) / 12) < dbl_overflow) \<longrightarrow>
            pv_monthly_premiums_due s i
              = Inr (of_real (\<Sum>idx<length s. (1 + i) powr (- real idx / 12) * s ! idx)))
      \<and> (1 + i \<noteq> 0 \<and> \<bar>1 + i\<bar> powr (- real (length s - 1) / 12) < dbl_overflow \<longrightarrow>
            pv_monthly_premiums_due s i
              = Inr (\<Sum>idx<length s. puissance (1 + i) (- real idx / 12) * of_real (s ! idx)))"
proof -
  define s where "s = survival_list qs 1"
  have a: "monthly_survival_to_month_start_from_annual_q qs = Inr s"
    unfolding s_def by (rule monthly_survival_eq)
  have b: "length s = 12 * length qs" unfolding s_def by (rule length_survival_list)
  have c: "s ! 0 = 1" unfolding s_def using assms by (rule survival_list_first)
  have d: "py_pow (1 + i) (- real 0 / 12) = Inr 1" by (simp add: py_pow_zero_exponent)
  have gen: "pv_monthly_premiums_due s i
              = Inr (\<Sum>idx<length s. puissance (1 + i) (- real idx / 12) * of_real (s ! idx))"
    if "1 + i \<noteq> 0" and "\<bar>1 + i\<bar> powr (- real (length s - 1) / 12) < dbl_overflow"
    using that by (rule pv_general)
  have e: "(0 \<le> i \<or> - 1 < i \<and> \<bar>1 + i\<bar> powr (- real (length s - 1) / 12) < dbl_overflow) \<longrightarrow>
            pv_monthly_premiums_due s i
              = Inr (of_real (\<Sum>idx<length s. (1 + i) powr (- real idx / 12) * s ! idx))"
  proof
    assume h: "0 \<le> i \<or> - 1 < i \<and> \<bar>1 + i\<bar> powr (- real (length s - 1) / 12) < dbl_overflow"
    then have pos: "0 < 1 + i" by auto
    have "1 + i \<noteq> 0 \<and> \<bar>1 + i\<bar> powr (- real (length s - 1) / 12) < dbl_overflow"
      using h discount_bound_nonneg(1)[of i] discount_bound_nonneg(2)[of i "length s - 1"]
      by auto
    then have "pv_monthly_premiums_due s i
              = Inr (\<Sum>idx<length s. puissance (1 + i) (- real idx / 12) * of_real (s ! idx))"
      using gen by blast
    then show "pv_monthly_premiums_due s i
              = Inr (of_real (\<Sum>idx<length s. (1 + i) powr (- real idx / 12) * s ! idx))"
      by (simp only: puissance_sum_real1[OF pos])
  qed
  have f: "1 + i \<noteq> 0 \<and> \<bar>1 + i\<bar> powr (- real (length s - 1) / 12) < dbl_overflow \<longrightarrow>
            pv_monthly_premiums_due s i
              = Inr (\<Sum>idx<length s. puissance (1 + i) (- real idx / 12) * of_real (s ! idx))"
    using gen by blast
  from a b c d e f show ?thesis by blast
qed

text \<open>
  The 24 months of two years with \<open>q = 0.01\<close> and \<open>q = 0.02\<close>, at 3 % and at the rate
  \<open>-2\<close>.
\<close>

theorem annuity_due_formula_witness:
  "[1 / 100, 2 / 100 :: real] \<noteq> [] \<and> (0 :: real) \<le> 3 / 100
   \<and> (\<exists>s. monthly_survival_to_month_start_from_annual_q [1 / 100, 2 / 100] = Inr s
      \<and> length s = 24
      \<and> s ! 0 = 1
      \<and> pv_monthly_premiums_due s (3 / 100)
          = Inr (of_real (\<Sum>idx<24. (1 + 3 / 100) powr (- real idx / 12) * s ! idx))
      \<and> 1 + (- 2 :: real) \<noteq> 0
      \<and> \<bar>1 + (- 2 :: real)\<bar> powr (- real (length s - 1) / 12) < dbl_overflow
      \<and> pv_monthly_premiums_due s (- 2)
          = Inr (\<Sum>idx<24. puissance (1 + (- 2)) (- real idx / 12) * of_real (s ! idx)))"
proof -
  have h1: "[1 / 100, 2 / 100 :: real] \<noteq> []" and h2: "(0 :: real) \<le> 3 / 100" by simp_all
  obtain s where r: "monthly_survival_to_month_start_from_annual_q [1 / 100, 2 / 100] = Inr s"
      "length s = 12 * length [1 / 100, 2 / 100 :: real]" "s ! 0 = 1"
      "(0 \<le> (3 / 100 :: real) \<or> - 1 < (3 / 100 :: real)
          \<and> \<bar>1 + (3 / 100 :: real)\<bar> powr (- real (length s - 1) / 12) < dbl_overflow) \<longrightarrow>
       pv_monthly_premiums_due s (3 / 100)
          = Inr (of_real (\<Sum>idx<length s. (1 + 3 / 100) powr (- real idx / 12) * s ! idx))"
    using annuity_due_formula[OF h1, of "3 / 100"] by blast
  have l: "length s = 24" using r(2) by simp
  have p: "pv_monthly_premiums_due s (3 / 100)
          = Inr (of_real (\<Sum>idx<24. (1 + 3 / 100) powr (- real idx / 12) * s ! idx))"
    using r(4) h2 unfolding l by blast
  obtain s' where r': "monthly_survival_to_month_start_from_annual_q [1 / 100, 2 / 100] = Inr s'"
      "1 + (- 2 :: real) \<noteq> 0 \<and> \<bar>1 + (- 2 :: real)\<bar> powr (- real (length s' - 1) / 12) < dbl_overflow \<longrightarrow>
       pv_monthly_premiums_due s' (- 2)
          = Inr (\<Sum>idx<length s'. puissance (1 + (- 2)) (- real idx / 12) * of_real (s' ! idx))"
    using annuity_due_formula[OF h1, of "- 2"] by blast
  have ss: "s' = s" using r(1) r'(1) by simp
  have h3: "1 + (- 2 :: real) \<noteq> 0" by simp
  have h4: "\<bar>1 + (- 2 :: real)\<bar> powr (- real (length s - 1) / 12) < dbl_overflow"
    by (simp add: dbl_overflow_def)
  have q: "pv_monthly_premiums_due s (- 2)
          = Inr (\<Sum>idx<24. puissance (1 + (- 2)) (- real idx / 12) * of_real (s ! idx))"
    using r'(2) h3 h4 unfolding ss l by blast
  have "\<exists>s. monthly_survival_to_month_start_from_annual_q [1 / 100, 2 / 100] = Inr s
      \<and> length s = 24
      \<and> s ! 0 = 1
      \<and> pv_monthly_premiums_due s (3 / 100)
          = Inr (of_real (\<Sum>idx<24. (1 + 3 / 100) powr (- real idx / 12) * s ! idx))
      \<and> 1 + (- 2 :: real) \<noteq> 0
      \<and> \<bar>1 + (- 2 :: real)\<bar> powr (- real (length s - 1) / 12) < dbl_overflow
      \<and> pv_monthly_premiums_due s (- 2)
          = Inr (\<Sum>idx<24. puissance (1 + (- 2)) (- real idx / 12) * of_real (s ! idx))"
    using r(1) l r(3) p h3 h4 q by (intro exI[of _ s] conjI)
  with h1 h2 show ?thesis by (intro conjI)
qed

subsection \<open>Rates at which a discount factor has no value\<close>

text \<open>
  At the rate \<open>-1\<close> the base of the powers is 0 and the first factor with a negative
  exponent raises \<open>ZeroDivisionError\<close>. Just above \<open>-1\<close> the base is so small that a
  factor overflows: at the rate \<open>-(1 - 2^-53)\<close>, the double \<open>-0.9999999999999999\<close>, the
  factor of month 232 is \<open>2 ^ (53 * 232 / 12)\<close>, above the largest double, and
  \<open>single_premium_monthly\<close> raises \<open>OverflowError\<close> on 240 months, also when every term of
  the sum is 0.
\<close>

lemma single_premium_zero_base:
  "single_premium_monthly [1000] [0] (- 1) = Inl ZeroDivisionError"
  by (simp add: single_premium_monthly_def py_pow_def)

lemma pv_zero_base:
  "2 \<le> length xs \<Longrightarrow> pv_monthly_premiums_due xs (- 1) = Inl ZeroDivisionError"
proof -
  assume "2 \<le> length xs"
  then obtain x y rest where "xs = x # y # rest"
    by (cases xs; cases "tl xs") auto
  then show ?thesis by (simp add: pv_monthly_premiums_due_def py_pow_def)
qed

lemma premium_loop_append:
  "premium_loop i m (zs @ zs') U =
     (case premium_loop i m zs U of
        Inl e \<Rightarrow> Inl e
      | Inr U' \<Rightarrow> premium_loop i (m + length zs) zs' U')"
proof (induction zs arbitrary: m U)
  case Nil
  then show ?case by simp
next
  case (Cons z zs)
  show ?case
    by (cases "py_pow (1 + i) (- real m / 12)") (auto simp: Cons.IH split: sum.splits)
qed

lemma two_powr_53: "(1 / 2 ^ 53 :: real) powr y = 2 powr (- 53 * y)"
proof -
  have "(1 / 2 ^ 53 :: real) = 2 powr (- 53)"
    by (simp add: powr_minus_divide powr_realpow[symmetric])
  then show ?thesis by (simp only: powr_powr)
qed

lemma py_pow_overflow_232: "py_pow (1 / 2 ^ 53) (- real 232 / 12) = Inl OverflowError"
proof -
  have "(2::real) powr 1024 \<le> 2 powr (- 53 * (- real 232 / 12))"
    by (intro powr_mono) simp_all
  then have "(2::real) ^ 1024 \<le> (1 / 2 ^ 53) powr (- real 232 / 12)"
    unfolding two_powr_53 by (simp add: powr_realpow[symmetric])
  moreover have "dbl_overflow \<le> 2 ^ 1024" by (simp add: dbl_overflow_def)
  ultimately have "dbl_overflow \<le> (1 / 2 ^ 53) powr (- real 232 / 12)" by linarith
  then show ?thesis by (simp add: py_pow_def)
qed

lemma single_premium_overflow:
  "single_premium_monthly (replicate 240 0) (replicate 240 0) (- (1 - 1 / 2 ^ 53))
     = Inl OverflowError"
proof -
  define i :: real where "i = - (1 - 1 / 2 ^ 53)"
  have b: "1 + i = 1 / 2 ^ 53" by (simp add: i_def)
  have nz: "1 + i \<noteq> 0" unfolding b by simp
  have "\<bar>1 + i\<bar> = 1 / 2 ^ 53" unfolding b by simp
  then have "\<bar>1 + i\<bar> powr (- real 231 / 12) = 2 powr (- 53 * (- real 231 / 12))"
    by (simp only: two_powr_53)
  also have "\<dots> \<le> 2 powr 1021" by (intro powr_mono) simp_all
  also have "\<dots> = 2 ^ 1021" by (simp add: powr_realpow[symmetric])
  also have "\<dots> < dbl_overflow" by (simp add: dbl_overflow_def)
  finally have bd: "\<bar>1 + i\<bar> powr (- real 231 / 12) < dbl_overflow" .
  have z: "zip (replicate 240 (0::real)) (replicate 240 (0::real))
             = replicate 231 (0, 0) @ (0, 0) # replicate 8 (0, 0)"
    by (simp add: zip_replicate replicate_add[symmetric] flip: replicate_Suc)
  have ok: "\<bar>1 + i\<bar> powr (- real j / 12) < dbl_overflow"
    if "j < 1 + length (replicate 231 (0::real, 0::real))" for j
    using that by (intro discount_bound[OF nz bd]) simp
  have "premium_loop i 1 (replicate 231 (0, 0)) 0 =
     Inr (0 + (\<Sum>k<length (replicate 231 (0::real, 0::real)).
                 puissance (1 + i) (- real (1 + k) / 12)
                 * of_real (snd (replicate 231 (0::real, 0::real) ! k))
                 * of_real (fst (replicate 231 (0::real, 0::real) ! k))))"
    by (rule premium_loop_eq[OF nz ok])
  also have "(\<Sum>k<length (replicate 231 (0::real, 0::real)).
                 puissance (1 + i) (- real (1 + k) / 12)
                 * of_real (snd (replicate 231 (0::real, 0::real) ! k))
                 * of_real (fst (replicate 231 (0::real, 0::real) ! k))) = 0"
    by (rule sum.neutral) simp
  finally have first: "premium_loop i 1 (replicate 231 (0, 0)) 0 = Inr 0" by simp
  have "premium_loop i 232 ((0, 0) # replicate 8 (0, 0)) 0 = Inl OverflowError"
    unfolding premium_loop.simps b py_pow_overflow_232 by simp
  then have "premium_loop i 1 (replicate 231 (0, 0) @ (0, 0) # replicate 8 (0, 0)) 0
               = Inl OverflowError"
    unfolding premium_loop_append first by simp
  then show ?thesis
    unfolding i_def[symmetric] single_premium_monthly_def z by simp
qed

end
